theory Spec2Isabelle
  imports Complex_Main
begin

section \<open>Data model (types.ts)\<close>

text \<open>
  Numbers. The engine computes with JavaScript numbers. Amounts, risks and scores are
  modelled in exact rational arithmetic (\<open>rat\<close>): IEEE rounding is not represented.
  A cached time is what \<open>Date.getTime()\<close> returns: an integral number of
  milliseconds, or NaN when the timestamp string does not parse.
\<close>

datatype jstime = NaN | Ms int

datatype error = TypeError

record Transaction =
  transaction_id :: string
  sender_id :: string
  receiver_id :: string
  amount :: rat
  timestamp :: string

text \<open>
  \<open>buildGraph\<close> stores the parsed time on the transaction object itself
  (\<open>(tx as any)._time\<close>); the model pairs the record with that field.
\<close>

record TimedTx = Transaction +
  tx_time :: jstime

datatype pattern = Cycle | Smurfing | Shell

record FraudRing =
  ring_id :: string
  member_accounts :: "string list"
  pattern_type :: pattern
  risk_score :: rat

text \<open>The field \<open>ring_id\<close> of a SuspiciousAccount is called \<open>sa_ring_id\<close> here.\<close>

record SuspiciousAccount =
  account_id :: string
  suspicion_score :: rat
  detected_patterns :: "pattern list"
  sa_ring_id :: string

text \<open>\<open>processing_time_seconds\<close> reads the wall clock and is left out.\<close>

record DetectionSummary =
  total_accounts_analyzed :: nat
  suspicious_accounts_flagged :: nat
  fraud_rings_detected :: nat

record DetectionResult =
  suspicious_accounts :: "SuspiciousAccount list"
  fraud_rings :: "FraudRing list"
  summary :: DetectionSummary

section \<open>JavaScript containers and primitives\<close>

text \<open>
  A \<open>Set\<close> is a duplicate-free list in insertion order, a \<open>Map\<close> an association
  list in insertion order of its keys.
\<close>

definition set_add :: "'a list \<Rightarrow> 'a \<Rightarrow> 'a list" where
  "set_add s x = (if x \<in> set s then s else s @ [x])"

definition new_Set :: "'a list \<Rightarrow> 'a list" where
  "new_Set xs = fold (\<lambda>x s. set_add s x) xs []"

definition map_has :: "('k \<times> 'v) list \<Rightarrow> 'k \<Rightarrow> bool" where
  "map_has m k = (k \<in> fst ` set m)"

definition map_get :: "('k \<times> 'v) list \<Rightarrow> 'k \<Rightarrow> 'v option" where
  "map_get m k = map_of m k"

text \<open>\<open>if (!m.has(k)) m.set(k, v)\<close>\<close>

definition map_ensure :: "('k \<times> 'v) list \<Rightarrow> 'k \<Rightarrow> 'v \<Rightarrow> ('k \<times> 'v) list" where
  "map_ensure m k v = (if map_has m k then m else m @ [(k, v)])"

text \<open>In-place change of the value stored under a key: \<open>m.get(k).push(x)\<close>.\<close>

fun map_modify :: "('k \<times> 'v) list \<Rightarrow> 'k \<Rightarrow> ('v \<Rightarrow> 'v) \<Rightarrow> ('k \<times> 'v) list" where
  "map_modify [] k f = []"
| "map_modify ((k', v) # m) k f =
     (if k' = k then (k', f v) # m else (k', v) # map_modify m k f)"

text \<open>\<open>m.get(k) || []\<close>\<close>

definition map_get_or_empty :: "('k \<times> 'v list) list \<Rightarrow> 'k \<Rightarrow> 'v list" where
  "map_get_or_empty m k = (case map_get m k of None \<Rightarrow> [] | Some v \<Rightarrow> v)"

text \<open>\<open>Array.prototype.join\<close>\<close>

fun join :: "string \<Rightarrow> string list \<Rightarrow> string" where
  "join sep [] = []"
| "join sep [x] = x"
| "join sep (x # y # ys) = x @ sep @ join sep (y # ys)"

text \<open>
  \<open>Array.prototype.sort\<close> with a comparator is stable; \<open>gt a b\<close> stands for
  "the comparator returns a positive number on \<open>(a, b)\<close>" (a NaN result counts as 0).
  The model is the stable insertion sort. For a comparator that is not a consistent
  ordering ECMAScript leaves the resulting order to the implementation.
\<close>

fun insert_sorted :: "('a \<Rightarrow> 'a \<Rightarrow> bool) \<Rightarrow> 'a \<Rightarrow> 'a list \<Rightarrow> 'a list" where
  "insert_sorted gt x [] = [x]"
| "insert_sorted gt x (y # ys) =
     (if gt x y then y # insert_sorted gt x ys else x # y # ys)"

definition js_sort :: "('a \<Rightarrow> 'a \<Rightarrow> bool) \<Rightarrow> 'a list \<Rightarrow> 'a list" where
  "js_sort gt xs = foldr (insert_sorted gt) xs []"

text \<open>\<open>arr.slice(i, j)\<close> for \<open>0 \<le> i\<close>, \<open>0 \<le> j\<close>\<close>

definition slice :: "'a list \<Rightarrow> nat \<Rightarrow> nat \<Rightarrow> 'a list" where
  "slice xs i j = take (j - i) (drop i xs)"

text \<open>Arithmetic and comparison on times; every comparison with NaN is false.\<close>

fun time_sub :: "jstime \<Rightarrow> int \<Rightarrow> jstime" where
  "time_sub NaN k = NaN"
| "time_sub (Ms t) k = Ms (t - k)"

fun time_add :: "jstime \<Rightarrow> int \<Rightarrow> jstime" where
  "time_add NaN k = NaN"
| "time_add (Ms t) k = Ms (t + k)"

fun time_diff :: "jstime \<Rightarrow> jstime \<Rightarrow> jstime" where
  "time_diff (Ms a) (Ms b) = Ms (a - b)"
| "time_diff _ _ = NaN"

fun time_lt :: "jstime \<Rightarrow> jstime \<Rightarrow> bool" where
  "time_lt (Ms a) (Ms b) = (a < b)"
| "time_lt _ _ = False"

fun time_le :: "jstime \<Rightarrow> jstime \<Rightarrow> bool" where
  "time_le (Ms a) (Ms b) = (a \<le> b)"
| "time_le _ _ = False"

text \<open>\<open>x > 0\<close> for a number that may be NaN\<close>

fun time_pos :: "jstime \<Rightarrow> bool" where
  "time_pos (Ms a) = (0 < a)"
| "time_pos NaN = False"

text \<open>
  \<open>Number(x.toFixed(1))\<close>: the nearest multiple of one tenth, the larger one on a tie
  (on the absolute value; the sign is put back afterwards).
\<close>

definition round_tenth :: "rat \<Rightarrow> rat" where
  "round_tenth x = of_int \<lfloor>x * 10 + 1 / 2\<rfloor> / 10"

definition toFixed1 :: "rat \<Rightarrow> rat" where
  "toFixed1 x = (if x < 0 then - round_tenth (- x) else round_tenth x)"

text \<open>\<open>String(n)\<close> for a non-negative integer and \<open>padStart(3, "0")\<close>\<close>

definition digit_char :: "nat \<Rightarrow> char" where
  "digit_char d = char_of (48 + d)"

fun string_of_nat :: "nat \<Rightarrow> string" where
  "string_of_nat n =
     (if n < 10 then [digit_char n] else string_of_nat (n div 10) @ [digit_char (n mod 10)])"

definition padStart3 :: "string \<Rightarrow> string" where
  "padStart3 s = replicate (3 - length s) (CHR ''0'') @ s"

section \<open>The engine (services/detectionEngine.ts)\<close>

record Engine =
  transactions :: "TimedTx list"
  adjacency :: "(string \<times> string list) list"
  accountTx :: "(string \<times> TimedTx list) list"

definition WINDOW_MS :: int where "WINDOW_MS = 72 * 60 * 60 * 1000"
definition MIN_UNIQUE :: nat where "MIN_UNIQUE = 10"
definition MERCHANT_IN_THRESHOLD :: nat where "MERCHANT_IN_THRESHOLD = 100"
definition MERCHANT_AVG_AMOUNT :: rat where "MERCHANT_AVG_AMOUNT = 2000"
definition SHELL_MAX_TX :: nat where "SHELL_MAX_TX = 3"
definition SHELL_MIN_TX :: nat where "SHELL_MIN_TX = 2"
definition PASSTHROUGH_RATIO_MIN :: rat where "PASSTHROUGH_RATIO_MIN = 6 / 10"
definition SMURFING_RISK_THRESHOLD :: rat where "SMURFING_RISK_THRESHOLD = 65 / 100"

subsection \<open>buildGraph\<close>

text \<open>
  \<open>parse\<close> stands for \<open>s \<mapsto> new Date(s).getTime()\<close>, a function of the host
  that the engine takes as it is.
\<close>

definition stamp :: "(string \<Rightarrow> jstime) \<Rightarrow> Transaction \<Rightarrow> TimedTx" where
  "stamp parse tx = Transaction.extend tx (TimedTx.fields (parse (timestamp tx)))"

text \<open>One round of the loop: the two maps are the state.\<close>

definition buildGraph_step :: "TimedTx
    \<Rightarrow> (string \<times> string list) list \<times> (string \<times> TimedTx list) list
    \<Rightarrow> (string \<times> string list) list \<times> (string \<times> TimedTx list) list" where
  "buildGraph_step tx st =
     (let adj1 = map_ensure (fst st) (sender_id tx) [];
          adj2 = map_modify adj1 (sender_id tx) (\<lambda>s. set_add s (receiver_id tx));
          atx1 = map_ensure (snd st) (sender_id tx) [];
          atx2 = map_ensure atx1 (receiver_id tx) [];
          atx3 = map_modify atx2 (sender_id tx) (\<lambda>l. l @ [tx]);
          atx4 = map_modify atx3 (receiver_id tx) (\<lambda>l. l @ [tx])
      in (adj2, atx4))"

definition buildGraph :: "(string \<Rightarrow> jstime) \<Rightarrow> Transaction list \<Rightarrow> Engine" where
  "buildGraph parse txs =
     (let ttxs = map (stamp parse) txs;
          st = fold buildGraph_step ttxs ([], [])
      in \<lparr>transactions = ttxs, adjacency = fst st, accountTx = snd st\<rparr>)"

subsection \<open>isMerchant\<close>

definition sum_amount :: "TimedTx list \<Rightarrow> rat" where
  "sum_amount txs = fold (\<lambda>t s. s + amount t) txs 0"

definition isMerchant :: "Engine \<Rightarrow> string \<Rightarrow> nat option \<Rightarrow> rat option \<Rightarrow> bool" where
  "isMerchant e account fanIn avgAmount =
     (let txs = map_get_or_empty (accountTx e) account;
          incoming = filter (\<lambda>t. receiver_id t = account) txs;
          outgoing = filter (\<lambda>t. sender_id t = account) txs;
          effectiveFanIn = (case fanIn of Some f \<Rightarrow> f | None \<Rightarrow> length incoming);
          effectiveAvg = (case avgAmount of Some a \<Rightarrow> a
                          | None \<Rightarrow> if length incoming > 0
                                    then sum_amount incoming / of_nat (length incoming)
                                    else 0)
      in if effectiveFanIn > MERCHANT_IN_THRESHOLD \<and> length outgoing = 0
            \<and> effectiveAvg > MERCHANT_AVG_AMOUNT
         then True
         else let uniqueReceivers = length (new_Set (map receiver_id outgoing))
              in if uniqueReceivers > MERCHANT_IN_THRESHOLD \<and> length incoming \<le> 5
                 then True else False)"

subsection \<open>Cycle detection\<close>

text \<open>
  \<open>lc a b\<close> stands for \<open>a.localeCompare(b)\<close>, the collation of the host.
\<close>

definition rotations_of :: "'a list \<Rightarrow> 'a list list" where
  "rotations_of arr = map (\<lambda>i. drop i arr @ take i arr) [0..<length arr]"

definition canonicalize :: "(string \<Rightarrow> string \<Rightarrow> int) \<Rightarrow> string list \<Rightarrow> error + string" where
  "canonicalize lc arr =
     (let rotations = rotations_of arr @ rotations_of (rev arr)
      in case js_sort (\<lambda>a b. lc (join '','' a) (join '','' b) > 0) rotations of
           [] \<Rightarrow> Inl TypeError
         | r # _ \<Rightarrow> Inr (join ''|'' r))"

type_synonym cycle_state = "string list \<times> string list list"

definition emit :: "(string \<Rightarrow> string \<Rightarrow> int) \<Rightarrow> string list \<Rightarrow> cycle_state \<Rightarrow> error + cycle_state" where
  "emit lc path st =
     (case canonicalize lc path of
        Inl err \<Rightarrow> Inl err
      | Inr key \<Rightarrow>
          (if key \<in> set (fst st) then Inr st
           else Inr (set_add (fst st) key, snd st @ [path])))"

function dfs :: "(string \<Rightarrow> string \<Rightarrow> int) \<Rightarrow> (string \<times> string list) list \<Rightarrow> nat \<Rightarrow> nat
    \<Rightarrow> string \<Rightarrow> string \<Rightarrow> string list \<Rightarrow> string list
    \<Rightarrow> error + cycle_state \<Rightarrow> error + cycle_state" where
  "dfs lc adj mn mx start current path visited acc =
     (case acc of
        Inl err \<Rightarrow> Inl err
      | Inr st \<Rightarrow>
          if length path > mx then Inr st
          else (case map_get adj current of
                  None \<Rightarrow> Inr st
                | Some neighbors \<Rightarrow>
                    fold (\<lambda>next acc1.
                        case acc1 of
                          Inl err \<Rightarrow> Inl err
                        | Inr st1 \<Rightarrow>
                            let acc2 = (if next = start \<and> length path \<ge> mn
                                        then emit lc path st1 else Inr st1)
                            in if next \<notin> set visited
                               then dfs lc adj mn mx start next (path @ [next])
                                      (set_add visited next) acc2
                               else acc2)
                      neighbors (Inr st)))"
  by pat_completeness auto
termination
  by (relation "measure (\<lambda>(lc, adj, mn, mx, start, current, path, visited, acc).
        Suc mx - length path)") auto

definition detectCycles :: "(string \<Rightarrow> string \<Rightarrow> int) \<Rightarrow> Engine \<Rightarrow> nat \<Rightarrow> nat
    \<Rightarrow> error + string list list" where
  "detectCycles lc e mn mx =
     (case fold (\<lambda>node acc. dfs lc (adjacency e) mn mx node node [node] (new_Set [node]) acc)
             (map fst (adjacency e)) (Inr ([], []))
      of Inl err \<Rightarrow> Inl err | Inr st \<Rightarrow> Inr (snd st))"

subsection \<open>Smurfing detection\<close>

text \<open>
  The inner \<open>while\<close> loop. Reading \<open>incoming[left]._time\<close> past the end of the array
  is a property access on \<open>undefined\<close>, which throws.
\<close>

function advance :: "TimedTx list \<Rightarrow> jstime \<Rightarrow> nat \<Rightarrow> error + nat" where
  "advance incoming bound left =
     (if left < length incoming
      then (if time_lt (tx_time (incoming ! left)) bound
            then advance incoming bound (Suc left)
            else Inr left)
      else Inl TypeError)"
  by pat_completeness auto
termination
  by (relation "measure (\<lambda>(incoming, bound, left). length incoming - left)") auto

text \<open>The \<open>for (right ...)\<close> loop, with \<open>left\<close> and \<open>bestWindow\<close> as its state.\<close>

function scan :: "TimedTx list \<Rightarrow> nat \<Rightarrow> nat \<Rightarrow> TimedTx list \<Rightarrow> error + TimedTx list" where
  "scan incoming right left bestWindow =
     (if right < length incoming
      then (let windowEnd = tx_time (incoming ! right)
            in case advance incoming (time_sub windowEnd WINDOW_MS) left of
                 Inl err \<Rightarrow> Inl err
               | Inr left' \<Rightarrow>
                   let window = slice incoming left' (right + 1)
                   in scan incoming (Suc right) left'
                        (if length window > length bestWindow then window else bestWindow))
      else Inr bestWindow)"
  by pat_completeness auto
termination
  by (relation "measure (\<lambda>(incoming, right, left, bestWindow). length incoming - right)") auto

definition incoming_sorted :: "string \<Rightarrow> TimedTx list \<Rightarrow> TimedTx list" where
  "incoming_sorted account txs =
     js_sort (\<lambda>a b. time_pos (time_diff (tx_time a) (tx_time b)))
       (filter (\<lambda>t. receiver_id t = account) txs)"

definition densest_window :: "string \<Rightarrow> TimedTx list \<Rightarrow> error + TimedTx list" where
  "densest_window account txs = scan (incoming_sorted account txs) 0 0 []"

definition uniqueSenders :: "TimedTx list \<Rightarrow> string list" where
  "uniqueSenders bestWindow = new_Set (map sender_id bestWindow)"

definition uniqueReceivers :: "string \<Rightarrow> TimedTx list \<Rightarrow> jstime \<Rightarrow> string list" where
  "uniqueReceivers account txs windowStart =
     (let windowEnd = time_add windowStart WINDOW_MS;
          outgoing = filter (\<lambda>t. sender_id t = account
                                \<and> time_le windowStart (tx_time t)
                                \<and> time_le (tx_time t) windowEnd) txs
      in new_Set (map receiver_id outgoing))"

text \<open>Lines 279 to 294: the risk as a function of the two set sizes.\<close>

definition smurfing_risk :: "nat \<Rightarrow> nat \<Rightarrow> rat" where
  "smurfing_risk nSenders nReceivers =
     (let hasFanOut = nReceivers \<ge> MIN_UNIQUE;
          senderScore = min (of_nat nSenders / 30) 1;
          hubFactor = min (of_nat (nSenders + nReceivers) / 40) 1
      in if hasFanOut then 1 / 2 * senderScore + 3 / 10 * hubFactor + 2 / 10
         else 1 / 2 * senderScore + 15 / 100)"

text \<open>The body of the loop over accounts: \<open>None\<close> is a \<open>continue\<close>.\<close>

definition smurf_account :: "Engine \<Rightarrow> string \<Rightarrow> TimedTx list \<Rightarrow> error + (string list \<times> rat) option" where
  "smurf_account e account txs =
     (if isMerchant e account None None then Inr None
      else if length (incoming_sorted account txs) < MIN_UNIQUE then Inr None
      else case densest_window account txs of
             Inl err \<Rightarrow> Inl err
           | Inr bestWindow \<Rightarrow>
               if length bestWindow < MIN_UNIQUE then Inr None
               else if length (uniqueSenders bestWindow) < MIN_UNIQUE then Inr None
               else (case bestWindow of
                       [] \<Rightarrow> Inl TypeError
                     | w0 # _ \<Rightarrow>
                         let windowStart = tx_time w0;
                             avgAmount = sum_amount bestWindow / of_nat (length bestWindow)
                         in if isMerchant e account (Some (length (uniqueSenders bestWindow)))
                                 (Some avgAmount)
                            then Inr None
                            else let receivers = uniqueReceivers account txs windowStart;
                                     hasFanOut = length receivers \<ge> MIN_UNIQUE;
                                     risk = smurfing_risk (length (uniqueSenders bestWindow))
                                              (length receivers)
                                 in if risk < SMURFING_RISK_THRESHOLD then Inr None
                                    else let accounts =
                                               (if hasFanOut
                                                then account # uniqueSenders bestWindow @ receivers
                                                else account # uniqueSenders bestWindow)
                                         in Inr (Some (new_Set accounts, risk))))"

text \<open>One round of the loop over \<open>accountTx.entries()\<close>; an exception ends the loop.\<close>

definition smurf_step :: "Engine \<Rightarrow> string \<times> TimedTx list
    \<Rightarrow> error + (string list \<times> rat) list \<Rightarrow> error + (string list \<times> rat) list" where
  "smurf_step e entry acc =
     (case acc of
        Inl err \<Rightarrow> Inl err
      | Inr rings \<Rightarrow>
          (case smurf_account e (fst entry) (snd entry) of
             Inl err \<Rightarrow> Inl err
           | Inr None \<Rightarrow> Inr rings
           | Inr (Some ring) \<Rightarrow> Inr (rings @ [ring])))"

definition detectSmurfing :: "Engine \<Rightarrow> error + (string list \<times> rat) list" where
  "detectSmurfing e = fold (smurf_step e) (accountTx e) (Inr [])"

subsection \<open>Shell detection\<close>

text \<open>\<open>getTxTime\<close> returns \<open>null\<close> (here \<open>None\<close>) when no transaction is found.\<close>

definition getTxTime :: "Engine \<Rightarrow> string \<Rightarrow> string \<Rightarrow> jstime option" where
  "getTxTime e from to =
     (case find (\<lambda>t. sender_id t = from \<and> receiver_id t = to)
             (map_get_or_empty (accountTx e) from) of
        None \<Rightarrow> None
      | Some tx \<Rightarrow> Some (tx_time tx))"

text \<open>\<open>!x\<close> for a number or \<open>null\<close>: true for \<open>null\<close>, NaN and 0.\<close>

fun falsy :: "jstime option \<Rightarrow> bool" where
  "falsy None = True"
| "falsy (Some NaN) = True"
| "falsy (Some (Ms t)) = (t = 0)"

text \<open>The conversion to a number that \<open><\<close> and \<open>-\<close> apply: \<open>null\<close> becomes 0.\<close>

fun to_number :: "jstime option \<Rightarrow> jstime" where
  "to_number None = Ms 0"
| "to_number (Some t) = t"

definition isTemporalChain :: "Engine \<Rightarrow> string \<Rightarrow> string \<Rightarrow> string \<Rightarrow> string \<Rightarrow> bool" where
  "isTemporalChain e a b c d =
     (let ab = getTxTime e a b; bc = getTxTime e b c; cd = getTxTime e c d
      in if falsy ab \<or> falsy bc \<or> falsy cd then False
         else time_lt (to_number ab) (to_number bc) \<and> time_lt (to_number bc) (to_number cd))"

text \<open>\<open>totalSpread\<close> of \<open>shellRisk\<close>: \<open>cd - ab\<close>.\<close>

definition totalSpread :: "Engine \<Rightarrow> string \<Rightarrow> string \<Rightarrow> string \<Rightarrow> string \<Rightarrow> jstime" where
  "totalSpread e a b c d =
     (let ab = to_number (getTxTime e a b);
          cd = to_number (getTxTime e c d)
      in time_diff cd ab)"

definition shellRisk :: "Engine \<Rightarrow> string \<Rightarrow> string \<Rightarrow> string \<Rightarrow> string \<Rightarrow> rat" where
  "shellRisk e a b c d =
     (let speedScore = (if time_lt (totalSpread e a b c d) (Ms (24 * 60 * 60 * 1000))
                        then 1 else 75 / 100)
      in 7 / 10 * speedScore + 1 / 10)"

text \<open>
  With \<open>totalIn \<noteq> 0\<close> and \<open>totalOut = 0\<close> the quotients are 0 and an infinity, so
  \<open>ratio\<close> is 0 or \<open>-Infinity\<close> and the test fails; that case is written out.
\<close>

definition isShellIntermediate :: "Engine \<Rightarrow> string \<Rightarrow> bool" where
  "isShellIntermediate e account =
     (let txs = map_get_or_empty (accountTx e) account
      in if length txs < SHELL_MIN_TX \<or> length txs > SHELL_MAX_TX then False
         else let totalIn = sum_amount (filter (\<lambda>t. receiver_id t = account) txs);
                  totalOut = sum_amount (filter (\<lambda>t. sender_id t = account) txs)
              in if totalIn = 0 then False
                 else if totalOut = 0 then False
                 else min (totalOut / totalIn) (totalIn / totalOut) \<ge> PASSTHROUGH_RATIO_MIN)"

type_synonym shell_state = "(string list \<times> rat) list \<times> string list"

text \<open>\<open>this.adjacency.get(d)?.has(a)\<close>\<close>

definition back_edge :: "Engine \<Rightarrow> string \<Rightarrow> string \<Rightarrow> bool" where
  "back_edge e d a = (case map_get (adjacency e) d of None \<Rightarrow> False | Some s \<Rightarrow> a \<in> set s)"

text \<open>The four nested loops, innermost first; the state is \<open>(rings, seen)\<close>.\<close>

definition shell_d :: "Engine \<Rightarrow> string \<Rightarrow> string \<Rightarrow> string \<Rightarrow> string \<Rightarrow> shell_state \<Rightarrow> shell_state" where
  "shell_d e a b c d st =
     (if d = a \<or> d = b \<or> d = c then st
      else let nodes = [a, b, c, d]
           in if back_edge e d a then st
              else if \<not> isTemporalChain e a b c d then st
              else let risk = shellRisk e a b c d
                   in if risk < 6 / 10 then st
                      else let key = join ''|'' nodes
                           in if key \<notin> set (snd st)
                              then (fst st @ [(nodes, risk)], set_add (snd st) key)
                              else st)"

definition shell_c :: "Engine \<Rightarrow> string list \<Rightarrow> string \<Rightarrow> string \<Rightarrow> string \<Rightarrow> shell_state \<Rightarrow> shell_state" where
  "shell_c e cycleAccounts a b c st =
     (if c \<in> set cycleAccounts then st
      else if \<not> isShellIntermediate e c then st
      else if c = a then st
      else fold (shell_d e a b c) (map_get_or_empty (adjacency e) c) st)"

definition shell_b :: "Engine \<Rightarrow> string list \<Rightarrow> string \<Rightarrow> string \<Rightarrow> shell_state \<Rightarrow> shell_state" where
  "shell_b e cycleAccounts a b st =
     (if b \<in> set cycleAccounts then st
      else if \<not> isShellIntermediate e b then st
      else fold (shell_c e cycleAccounts a b) (map_get_or_empty (adjacency e) b) st)"

definition shell_a :: "Engine \<Rightarrow> string list \<Rightarrow> string \<times> string list \<Rightarrow> shell_state \<Rightarrow> shell_state" where
  "shell_a e cycleAccounts entry st =
     (let a = fst entry; neighborsA = snd entry
      in if isMerchant e a None None then st
         else if a \<in> set cycleAccounts then st
         else fold (shell_b e cycleAccounts a) neighborsA st)"

definition detectShell :: "Engine \<Rightarrow> string list \<Rightarrow> (string list \<times> rat) list" where
  "detectShell e cycleAccounts = fst (fold (shell_a e cycleAccounts) (adjacency e) ([], []))"

subsection \<open>analyze\<close>

record Registry =
  suspiciousMap :: "(string \<times> SuspiciousAccount) list"
  fraudRings :: "FraudRing list"
  ringCounter :: nat

text \<open>The \<open>else\<close> branch of \<open>addRing\<close>'s member loop, on the stored record.\<close>

definition merge_existing :: "pattern \<Rightarrow> rat \<Rightarrow> string \<Rightarrow> SuspiciousAccount \<Rightarrow> SuspiciousAccount" where
  "merge_existing pat riskScore ringId existing =
     (let ex1 = (if riskScore > suspicion_score existing
                 then existing\<lparr>suspicion_score := riskScore, sa_ring_id := ringId\<rparr>
                 else existing)
      in if pat \<notin> set (detected_patterns ex1)
         then ex1\<lparr>detected_patterns := detected_patterns ex1 @ [pat]\<rparr>
         else ex1)"

definition addRing_member :: "Engine \<Rightarrow> pattern \<Rightarrow> rat \<Rightarrow> string \<Rightarrow> string
    \<Rightarrow> (string \<times> SuspiciousAccount) list \<Rightarrow> (string \<times> SuspiciousAccount) list" where
  "addRing_member e pat riskScore ringId acc m =
     (if isMerchant e acc None None then m
      else case map_get m acc of
             None \<Rightarrow> m @ [(acc, \<lparr>account_id = acc, suspicion_score = riskScore,
                                 detected_patterns = [pat], sa_ring_id = ringId\<rparr>)]
           | Some existing \<Rightarrow> map_modify m acc (merge_existing pat riskScore ringId))"

text \<open>The score of a ring: the risk clamped to \<open>[0, 1]\<close>, scaled, with one decimal.\<close>

definition riskScore_of :: "rat \<Rightarrow> rat" where
  "riskScore_of risk = (let clampedRisk = min (max risk 0) 1 in toFixed1 (clampedRisk * 100))"

definition addRing :: "Engine \<Rightarrow> string list \<Rightarrow> pattern \<Rightarrow> rat \<Rightarrow> Registry \<Rightarrow> Registry" where
  "addRing e accounts pat risk reg =
     (let ringId = ''RING_'' @ padStart3 (string_of_nat (ringCounter reg));
          riskScore = riskScore_of risk
      in \<lparr>suspiciousMap = fold (addRing_member e pat riskScore ringId) accounts (suspiciousMap reg),
          fraudRings = fraudRings reg @ [\<lparr>ring_id = ringId, member_accounts = accounts,
                                           pattern_type = pat, risk_score = riskScore\<rparr>],
          ringCounter = ringCounter reg + 1\<rparr>)"

definition initial_registry :: Registry where
  "initial_registry = \<lparr>suspiciousMap = [], fraudRings = [], ringCounter = 1\<rparr>"

definition add_cycles :: "Engine \<Rightarrow> string list list \<Rightarrow> Registry \<times> string list \<Rightarrow> Registry \<times> string list" where
  "add_cycles e cycles st =
     fold (\<lambda>cycle (reg, cycleAccounts).
              (addRing e cycle Cycle (85 / 100) reg,
               fold (\<lambda>a s. set_add s a) cycle cycleAccounts))
       cycles st"

definition analyze :: "(string \<Rightarrow> string \<Rightarrow> int) \<Rightarrow> Engine \<Rightarrow> error + DetectionResult" where
  "analyze lc e =
     (case detectCycles lc e 3 5 of
        Inl err \<Rightarrow> Inl err
      | Inr cycles \<Rightarrow>
          let st1 = add_cycles e cycles (initial_registry, []);
              reg1 = fst st1;
              cycleAccounts = snd st1
          in (case detectSmurfing e of
               Inl err \<Rightarrow> Inl err
             | Inr smurfs \<Rightarrow>
                 let reg2 = fold (\<lambda>smurf. addRing e (fst smurf) Smurfing (snd smurf)) smurfs reg1;
                     reg3 = fold (\<lambda>shell. addRing e (fst shell) Shell (snd shell))
                              (detectShell e cycleAccounts) reg2;
                     suspicious = js_sort (\<lambda>a b. suspicion_score b - suspicion_score a > 0)
                                    (map snd (suspiciousMap reg3));
                     allAccounts = fold (\<lambda>tx s. set_add (set_add s (sender_id tx)) (receiver_id tx))
                                     (transactions e) []
                 in Inr \<lparr>suspicious_accounts = suspicious,
                         fraud_rings = fraudRings reg3,
                         summary = \<lparr>total_accounts_analyzed = length allAccounts,
                                     suspicious_accounts_flagged = length suspicious,
                                     fraud_rings_detected = length (fraudRings reg3)\<rparr>\<rparr>))"

text \<open>\<open>new DetectionEngine(transactions).analyze()\<close>\<close>

definition run :: "(string \<Rightarrow> jstime) \<Rightarrow> (string \<Rightarrow> string \<Rightarrow> int) \<Rightarrow> Transaction list
    \<Rightarrow> error + DetectionResult" where
  "run parse lc txs = analyze lc (buildGraph parse txs)"

text \<open>
  A comparator for concrete evaluations: the order of the strings by character code.
  It is an instance of \<open>lc\<close>, not part of the engine.
\<close>

fun codeUnitCompare :: "string \<Rightarrow> string \<Rightarrow> int" where
  "codeUnitCompare [] [] = 0"
| "codeUnitCompare [] (y # ys) = - 1"
| "codeUnitCompare (x # xs) [] = 1"
| "codeUnitCompare (x # xs) (y # ys) =
     (if (of_char x :: nat) < of_char y then - 1
      else if (of_char y :: nat) < of_char x then 1
      else codeUnitCompare xs ys)"

section \<open>Notions used in the statements\<close>

text \<open>
  The checks of \<open>detectShell\<close> that come before the risk is computed: the chain
  \<open>a \<rightarrow> b \<rightarrow> c \<rightarrow> d\<close> passes the structural tests of the four loops and the
  temporal test.
\<close>

definition shell_chain :: "Engine \<Rightarrow> string list \<Rightarrow> string \<Rightarrow> string \<Rightarrow> string \<Rightarrow> string \<Rightarrow> bool" where
  "shell_chain e cycleAccounts a b c d =
     ((\<exists>entry \<in> set (adjacency e). fst entry = a \<and> b \<in> set (snd entry))
      \<and> \<not> isMerchant e a None None
      \<and> a \<notin> set cycleAccounts \<and> b \<notin> set cycleAccounts \<and> c \<notin> set cycleAccounts
      \<and> isShellIntermediate e b \<and> isShellIntermediate e c
      \<and> c \<in> set (map_get_or_empty (adjacency e) b)
      \<and> d \<in> set (map_get_or_empty (adjacency e) c)
      \<and> c \<noteq> a \<and> d \<noteq> a \<and> d \<noteq> b \<and> d \<noteq> c
      \<and> \<not> back_edge e d a
      \<and> isTemporalChain e a b c d)"


definition shell_inv :: "Engine \<Rightarrow> string list \<Rightarrow> shell_state \<Rightarrow> bool" where
  "shell_inv e cyc st =
     (\<forall>ring \<in> set (fst st). \<exists>a b c d. ring = ([a, b, c, d], shellRisk e a b c d)
          \<and> shell_chain e cyc a b c d)"


subsection \<open>Concrete batches\<close>

definition mkTx :: "string \<Rightarrow> string \<Rightarrow> string \<Rightarrow> rat \<Rightarrow> string \<Rightarrow> Transaction" where
  "mkTx i s r a t =
     \<lparr>transaction_id = i, sender_id = s, receiver_id = r, amount = a, timestamp = t\<rparr>"

text \<open>
  A sample parser for the examples: a string of decimal digits is read as that number
  of hours since the epoch, every other string is unparsable.
\<close>

definition digit_val :: "char \<Rightarrow> nat" where
  "digit_val ch = of_char ch - 48"

definition is_digit :: "char \<Rightarrow> bool" where
  "is_digit ch = (48 \<le> (of_char ch :: nat) \<and> (of_char ch :: nat) \<le> 57)"

definition parse_hours :: "string \<Rightarrow> jstime" where
  "parse_hours s =
     (if s \<noteq> [] \<and> list_all is_digit s
      then Ms (3600000 * int (fold (\<lambda>ch n. 10 * n + digit_val ch) s 0))
      else NaN)"



text \<open>The same chain with the first hop at the epoch itself.\<close>

definition batch_epoch0 :: "Transaction list" where
  "batch_epoch0 =
     [mkTx ''t1'' ''A'' ''B'' 100 ''0'',
      mkTx ''t2'' ''B'' ''C'' 100 ''2'',
      mkTx ''t3'' ''C'' ''D'' 100 ''3'']"

text \<open>Two hundred distinct three-digit labels, \<open>000\<close> to \<open>199\<close>.\<close>

definition labels :: "string list" where
  "labels = [[a, b, c]. a \<leftarrow> ''01'', b \<leftarrow> ''0123456789'', c \<leftarrow> ''0123456789'']"









subsection \<open>The merged record of an account, in the words of the specification\<close>

text \<open>The emitted rings an account belongs to, in the order of emission.\<close>

definition rings_of :: "string \<Rightarrow> FraudRing list \<Rightarrow> FraudRing list" where
  "rings_of acc rings = filter (\<lambda>g. acc \<in> set (member_accounts g)) rings"

text \<open>
  The ring that the record points to: the stored ring is replaced only by a later ring
  whose score is strictly greater.
\<close>

fun best_ring :: "FraudRing \<Rightarrow> FraudRing list \<Rightarrow> FraudRing" where
  "best_ring b [] = b"
| "best_ring b (g # gs) = best_ring (if risk_score g > risk_score b then g else b) gs"

definition merged :: "string \<Rightarrow> FraudRing list \<Rightarrow> SuspiciousAccount" where
  "merged acc gs =
     \<lparr>account_id = acc,
      suspicion_score = risk_score (best_ring (hd gs) (tl gs)),
      detected_patterns = new_Set (map pattern_type gs),
      sa_ring_id = ring_id (best_ring (hd gs) (tl gs))\<rparr>"

definition expected_entry :: "Engine \<Rightarrow> FraudRing list \<Rightarrow> string \<Rightarrow> SuspiciousAccount option" where
  "expected_entry e gs acc =
     (if isMerchant e acc None None \<or> rings_of acc gs = [] then None
      else Some (merged acc (rings_of acc gs)))"

definition registry_inv :: "Engine \<Rightarrow> Registry \<Rightarrow> bool" where
  "registry_inv e reg =
     (distinct (map fst (suspiciousMap reg))
      \<and> (\<forall>acc. map_of (suspiciousMap reg) acc = expected_entry e (fraudRings reg) acc))"

text \<open>What one round of \<open>addRing\<close>'s member loop stores for the account.\<close>

definition upd_entry :: "string \<Rightarrow> pattern \<Rightarrow> rat \<Rightarrow> string \<Rightarrow> SuspiciousAccount option
    \<Rightarrow> SuspiciousAccount" where
  "upd_entry acc pat riskScore ringId old =
     (case old of
        None \<Rightarrow> \<lparr>account_id = acc, suspicion_score = riskScore,
                  detected_patterns = [pat], sa_ring_id = ringId\<rparr>
      | Some existing \<Rightarrow> merge_existing pat riskScore ringId existing)"

text \<open>
  A shell chain \<open>A \<rightarrow> B \<rightarrow> C \<rightarrow> M\<close> that ends in a merchant: \<open>M\<close> receives 150
  payments of 5000 (one of them the last hop of the chain) and sends nothing.
\<close>

definition batch_merchant :: "Transaction list" where
  "batch_merchant =
     [mkTx ''t1'' ''A'' ''B'' 5000 ''1'',
      mkTx ''t2'' ''B'' ''C'' 5000 ''2'',
      mkTx ''t3'' ''C'' ''M'' 5000 ''3'']
     @ map (\<lambda>l. mkTx (''p'' @ l) ''S'' ''M'' 5000 ''5'') (take 149 labels)"

definition engine_merchant :: Engine where
  "engine_merchant = buildGraph parse_hours batch_merchant"

text \<open>
  A shell chain \<open>A \<rightarrow> B \<rightarrow> C \<rightarrow> D\<close> that ends in a member of the cycle
  \<open>D \<rightarrow> E \<rightarrow> F \<rightarrow> D\<close>.
\<close>

definition batch_shell_into_cycle :: "Transaction list" where
  "batch_shell_into_cycle =
     [mkTx ''t1'' ''A'' ''B'' 100 ''1'',
      mkTx ''t2'' ''B'' ''C'' 100 ''2'',
      mkTx ''t3'' ''C'' ''D'' 100 ''3'',
      mkTx ''t4'' ''D'' ''E'' 100 ''1'',
      mkTx ''t5'' ''E'' ''F'' 100 ''2'',
      mkTx ''t6'' ''F'' ''D'' 100 ''3'']"

definition engine_shell_into_cycle :: Engine where
  "engine_shell_into_cycle = buildGraph parse_hours batch_shell_into_cycle"

definition rings_shell_into_cycle :: "FraudRing list" where
  "rings_shell_into_cycle =
     [\<lparr>ring_id = ''RING_001'', member_accounts = [''D'', ''E'', ''F''],
        pattern_type = Cycle, risk_score = 85\<rparr>,
      \<lparr>ring_id = ''RING_002'', member_accounts = [''A'', ''B'', ''C'', ''D''],
        pattern_type = Shell, risk_score = 80\<rparr>]"

definition result_shell_into_cycle :: DetectionResult where
  "result_shell_into_cycle =
     \<lparr>suspicious_accounts =
        [\<lparr>account_id = ''D'', suspicion_score = 85,
           detected_patterns = [Cycle, Shell], sa_ring_id = ''RING_001''\<rparr>,
         \<lparr>account_id = ''E'', suspicion_score = 85,
           detected_patterns = [Cycle], sa_ring_id = ''RING_001''\<rparr>,
         \<lparr>account_id = ''F'', suspicion_score = 85,
           detected_patterns = [Cycle], sa_ring_id = ''RING_001''\<rparr>,
         \<lparr>account_id = ''A'', suspicion_score = 80,
           detected_patterns = [Shell], sa_ring_id = ''RING_002''\<rparr>,
         \<lparr>account_id = ''B'', suspicion_score = 80,
           detected_patterns = [Shell], sa_ring_id = ''RING_002''\<rparr>,
         \<lparr>account_id = ''C'', suspicion_score = 80,
           detected_patterns = [Shell], sa_ring_id = ''RING_002''\<rparr>],
      fraud_rings = rings_shell_into_cycle,
      summary = \<lparr>total_accounts_analyzed = 6, suspicious_accounts_flagged = 6,
                  fraud_rings_detected = 2\<rparr>\<rparr>"

definition result_merchant :: DetectionResult where
  "result_merchant =
     \<lparr>suspicious_accounts =
        [\<lparr>account_id = ''A'', suspicion_score = 80,
           detected_patterns = [Shell], sa_ring_id = ''RING_001''\<rparr>,
         \<lparr>account_id = ''B'', suspicion_score = 80,
           detected_patterns = [Shell], sa_ring_id = ''RING_001''\<rparr>,
         \<lparr>account_id = ''C'', suspicion_score = 80,
           detected_patterns = [Shell], sa_ring_id = ''RING_001''\<rparr>],
      fraud_rings =
        [\<lparr>ring_id = ''RING_001'', member_accounts = [''A'', ''B'', ''C'', ''M''],
           pattern_type = Shell, risk_score = 80\<rparr>],
      summary = \<lparr>total_accounts_analyzed = 5, suspicious_accounts_flagged = 3,
                  fraud_rings_detected = 1\<rparr>\<rparr>"

text \<open>The merchant pattern of the specification's example, on the full history.\<close>

definition merchant_example :: "Engine \<Rightarrow> string \<Rightarrow> bool" where
  "merchant_example e account =
     (let txs = map_get_or_empty (accountTx e) account;
          incoming = filter (\<lambda>t. receiver_id t = account) txs;
          outgoing = filter (\<lambda>t. sender_id t = account) txs
      in length incoming = 150 \<and> length outgoing = 0
         \<and> sum_amount incoming / of_nat (length incoming) = 5000)"

text \<open>A cycle of three payments whose timestamps do not parse.\<close>

definition batch_unparsable :: "Transaction list" where
  "batch_unparsable =
     [mkTx ''t1'' ''A'' ''B'' 100 ''yesterday'',
      mkTx ''t2'' ''B'' ''C'' 100 ''n/a'',
      mkTx ''t3'' ''C'' ''A'' 100 '''']"

definition result_unparsable :: DetectionResult where
  "result_unparsable =
     \<lparr>suspicious_accounts =
        [\<lparr>account_id = ''A'', suspicion_score = 85,
           detected_patterns = [Cycle], sa_ring_id = ''RING_001''\<rparr>,
         \<lparr>account_id = ''B'', suspicion_score = 85,
           detected_patterns = [Cycle], sa_ring_id = ''RING_001''\<rparr>,
         \<lparr>account_id = ''C'', suspicion_score = 85,
           detected_patterns = [Cycle], sa_ring_id = ''RING_001''\<rparr>],
      fraud_rings =
        [\<lparr>ring_id = ''RING_001'', member_accounts = [''A'', ''B'', ''C''],
           pattern_type = Cycle, risk_score = 85\<rparr>],
      summary = \<lparr>total_accounts_analyzed = 3, suspicious_accounts_flagged = 3,
                  fraud_rings_detected = 1\<rparr>\<rparr>"

text \<open>
  One directed cycle of three accounts whose identifiers contain the comma:
  \<open>a \<rightarrow> a,a \<rightarrow> a,a,a \<rightarrow> a\<close>.
\<close>

definition batch_comma_cycle :: "Transaction list" where
  "batch_comma_cycle =
     [mkTx ''t1'' ''a'' ''a,a'' 100 ''1'',
      mkTx ''t2'' ''a,a'' ''a,a,a'' 100 ''2'',
      mkTx ''t3'' ''a,a,a'' ''a'' 100 ''3'']"


subsection \<open>Cycles of the transaction graph\<close>

definition has_edge :: "(string \<times> string list) list \<Rightarrow> string \<Rightarrow> string \<Rightarrow> bool" where
  "has_edge adj u v = (case map_get adj u of None \<Rightarrow> False | Some ns \<Rightarrow> v \<in> set ns)"

fun is_walk :: "(string \<times> string list) list \<Rightarrow> string list \<Rightarrow> bool" where
  "is_walk adj [] = True"
| "is_walk adj [x] = True"
| "is_walk adj (x # y # r) = (has_edge adj x y \<and> is_walk adj (y # r))"

text \<open>A simple directed cycle, given by its nodes in order; the last node has an edge to the first.\<close>

definition simple_cycle :: "(string \<times> string list) list \<Rightarrow> string list \<Rightarrow> bool" where
  "simple_cycle adj p = (p \<noteq> [] \<and> distinct p \<and> is_walk adj p \<and> has_edge adj (last p) (hd p))"

definition cycles_inv :: "(string \<times> string list) list \<Rightarrow> nat \<Rightarrow> nat \<Rightarrow> error + cycle_state \<Rightarrow> bool" where
  "cycles_inv adj mn mx acc =
     (case acc of
        Inl err \<Rightarrow> True
      | Inr st \<Rightarrow> \<forall>p \<in> set (snd st). simple_cycle adj p \<and> mn \<le> length p \<and> length p \<le> mx)"

text \<open>What holds of the arguments at every call of \<open>dfs\<close>.\<close>

definition dfs_pre :: "(string \<times> string list) list \<Rightarrow> string \<Rightarrow> string \<Rightarrow> string list
    \<Rightarrow> string list \<Rightarrow> bool" where
  "dfs_pre adj start current path visited =
     (path \<noteq> [] \<and> hd path = start \<and> last path = current \<and> distinct path
      \<and> is_walk adj path \<and> set visited = set path)"

text \<open>The key is among the emitted ones (an exception counts as reached).\<close>

definition has_key :: "string \<Rightarrow> error + cycle_state \<Rightarrow> bool" where
  "has_key k acc = (case acc of Inl err \<Rightarrow> True | Inr st \<Rightarrow> k \<in> set (fst st))"

text \<open>The emitted keys and the results go in step: the i-th result has the i-th key.\<close>

definition in_step :: "(string \<Rightarrow> string \<Rightarrow> int) \<Rightarrow> error + cycle_state \<Rightarrow> bool" where
  "in_step lc acc =
     (case acc of
        Inl err \<Rightarrow> True
      | Inr st \<Rightarrow> map (canonicalize lc) (snd st) = map Inr (fst st) \<and> distinct (fst st))"

subsection \<open>The candidates of \<open>canonicalize\<close> and their order\<close>

text \<open>The comparator of the sort in \<open>canonicalize\<close>: positive on \<open>(a, b)\<close>.\<close>

definition cmp_gt :: "(string \<Rightarrow> string \<Rightarrow> int) \<Rightarrow> string list \<Rightarrow> string list \<Rightarrow> bool" where
  "cmp_gt lc a b = (lc (join '','' a) (join '','' b) > 0)"

text \<open>The rotations of a sequence and of its reversal.\<close>

definition rotation_class :: "string list \<Rightarrow> string list set" where
  "rotation_class arr = set (rotations_of arr @ rotations_of (rev arr))"

text \<open>The comparator orders the set strictly and linearly: distinct members never tie.\<close>

definition strictly_ordered :: "(string \<Rightarrow> string \<Rightarrow> int) \<Rightarrow> string list set \<Rightarrow> bool" where
  "strictly_ordered lc S =
     ((\<forall>a \<in> S. \<not> cmp_gt lc a a)
      \<and> (\<forall>a \<in> S. \<forall>b \<in> S. cmp_gt lc a b \<longrightarrow> \<not> cmp_gt lc b a)
      \<and> (\<forall>a \<in> S. \<forall>b \<in> S. \<forall>c \<in> S. \<not> cmp_gt lc a b \<and> \<not> cmp_gt lc b c \<longrightarrow> \<not> cmp_gt lc a c)
      \<and> (\<forall>a \<in> S. \<forall>b \<in> S. \<not> cmp_gt lc a b \<and> \<not> cmp_gt lc b a \<longrightarrow> a = b))"

subsection \<open>The densest window, in the words of the specification\<close>

text \<open>Every time of the list is a number.\<close>

definition parsed :: "TimedTx list \<Rightarrow> bool" where
  "parsed xs = (\<forall>t \<in> set xs. tx_time t \<noteq> NaN)"

definition sorted_by_time :: "TimedTx list \<Rightarrow> bool" where
  "sorted_by_time xs = sorted_wrt (\<lambda>a b. time_le (tx_time a) (tx_time b)) xs"

text \<open>
  Transaction \<open>i\<close> lies in the window \<open>[time(r) - 72h, time(r)]\<close> that ends at
  transaction \<open>r\<close>: the test of the \<open>while\<close> loop fails for it.
\<close>

definition within_window :: "TimedTx list \<Rightarrow> nat \<Rightarrow> nat \<Rightarrow> bool" where
  "within_window inc r i =
     (\<not> time_lt (tx_time (inc ! i)) (time_sub (tx_time (inc ! r)) WINDOW_MS))"

text \<open>The three parts of the invariant of the \<open>for\<close> loop.\<close>

definition skipped :: "TimedTx list \<Rightarrow> nat \<Rightarrow> nat \<Rightarrow> bool" where
  "skipped inc left right =
     (\<forall>i r. i < left \<and> right \<le> r \<and> r < length inc \<longrightarrow> \<not> within_window inc r i)"

definition optimal :: "TimedTx list \<Rightarrow> TimedTx list \<Rightarrow> nat \<Rightarrow> bool" where
  "optimal inc best right =
     (\<forall>r l. r < right \<and> l \<le> r \<and> within_window inc r l \<longrightarrow> Suc r - l \<le> length best)"

definition is_window :: "TimedTx list \<Rightarrow> TimedTx list \<Rightarrow> bool" where
  "is_window inc best =
     (best = [] \<or> (\<exists>l r. l \<le> r \<and> r < length inc \<and> best = slice inc l (Suc r)
                      \<and> within_window inc r l))"

section \<open>Properties\<close>

subsection \<open>Loops as folds\<close>

lemma fold_invariant:
  assumes "I s" and "\<And>x s. x \<in> set xs \<Longrightarrow> I s \<Longrightarrow> I (f x s)"
  shows "I (fold f xs s)"
  using assms by (induction xs arbitrary: s) auto

lemma fold_reaches:
  assumes "x \<in> set xs" and "\<And>s. Q (f x s)" and "\<And>y s. Q s \<Longrightarrow> Q (f y s)"
  shows "Q (fold f xs s)"
  using assms(1)
proof (induction xs arbitrary: s)
  case Nil
  then show ?case by simp
next
  case (Cons y ys)
  show ?case
  proof (cases "x = y")
    case True
    have "Q (f y s)" using assms(2) True by simp
    then have "Q (fold f ys (f y s))"
      by (rule fold_invariant) (rule assms(3))
    then show ?thesis by simp
  next
    case False
    then have "x \<in> set ys" using Cons.prems by simp
    then show ?thesis using Cons.IH by simp
  qed
qed

subsection \<open>Shell detection: what is emitted\<close>

lemma shell_d_inv:
  assumes "shell_inv e cyc st"
    and "\<exists>entry \<in> set (adjacency e). fst entry = a \<and> b \<in> set (snd entry)"
    and "\<not> isMerchant e a None None" and "a \<notin> set cyc" and "b \<notin> set cyc"
    and "isShellIntermediate e b" and "c \<in> set (map_get_or_empty (adjacency e) b)"
    and "c \<notin> set cyc" and "isShellIntermediate e c" and "c \<noteq> a"
    and "d \<in> set (map_get_or_empty (adjacency e) c)"
  shows "shell_inv e cyc (shell_d e a b c d st)"
proof -
  have "shell_chain e cyc a b c d"
    if "d \<noteq> a" "d \<noteq> b" "d \<noteq> c" "\<not> back_edge e d a" "isTemporalChain e a b c d"
    using that assms(2-) unfolding shell_chain_def by simp
  then show ?thesis
    using assms(1) unfolding shell_d_def shell_inv_def Let_def
    by auto
qed

lemma shell_c_inv:
  assumes "shell_inv e cyc st"
    and "\<exists>entry \<in> set (adjacency e). fst entry = a \<and> b \<in> set (snd entry)"
    and "\<not> isMerchant e a None None" and "a \<notin> set cyc" and "b \<notin> set cyc"
    and "isShellIntermediate e b" and "c \<in> set (map_get_or_empty (adjacency e) b)"
  shows "shell_inv e cyc (shell_c e cyc a b c st)"
  unfolding shell_c_def
  using assms by (auto intro!: fold_invariant [where I = "shell_inv e cyc"] shell_d_inv)

lemma shell_b_inv:
  assumes "shell_inv e cyc st"
    and "\<exists>entry \<in> set (adjacency e). fst entry = a \<and> b \<in> set (snd entry)"
    and "\<not> isMerchant e a None None" and "a \<notin> set cyc"
  shows "shell_inv e cyc (shell_b e cyc a b st)"
  unfolding shell_b_def
  using assms by (auto intro!: fold_invariant [where I = "shell_inv e cyc"] shell_c_inv)

lemma shell_a_inv:
  assumes "shell_inv e cyc st" and "entry \<in> set (adjacency e)"
  shows "shell_inv e cyc (shell_a e cyc entry st)"
  unfolding shell_a_def Let_def
  using assms by (auto intro!: fold_invariant [where I = "shell_inv e cyc"] shell_b_inv)

lemma detectShell_sound:
  assumes "ring \<in> set (detectShell e cyc)"
  shows "\<exists>a b c d. ring = ([a, b, c, d], shellRisk e a b c d) \<and> shell_chain e cyc a b c d"
proof -
  have "shell_inv e cyc (fold (shell_a e cyc) (adjacency e) ([], []))"
  proof (rule fold_invariant [where I = "shell_inv e cyc"])
    show "shell_inv e cyc ([], [])" by (simp add: shell_inv_def)
  next
    fix x s assume "x \<in> set (adjacency e)" "shell_inv e cyc s"
    then show "shell_inv e cyc (shell_a e cyc x s)" by (rule shell_a_inv [rotated])
  qed
  then show ?thesis using assms unfolding detectShell_def shell_inv_def by blast
qed



subsection \<open>Shell detection: what passes the checks is recorded\<close>













subsection \<open>Shell keys of identifiers without the bar\<close>








text \<open>
  C9. When the representative transaction of one of the pairs \<open>a \<rightarrow> b\<close>, \<open>b \<rightarrow> c\<close>,
  \<open>c \<rightarrow> d\<close> has the cached time 0, \<open>isTemporalChain\<close> is false (the time is tested for
  falsiness together with a missing transaction), and \<open>detectShell\<close> emits no ring for
  the chain, also when the three times are strictly increasing.
\<close>

theorem epoch_zero_hop_rejected:
  assumes "getTxTime e a b = Some (Ms 0) \<or> getTxTime e b c = Some (Ms 0)
           \<or> getTxTime e c d = Some (Ms 0)"
  shows "\<not> isTemporalChain e a b c d \<and> (\<forall>risk. ([a, b, c, d], risk) \<notin> set (detectShell e cyc))"
proof -
  have no: "\<not> isTemporalChain e a b c d"
    using assms unfolding isTemporalChain_def Let_def by auto
  have "([a, b, c, d], risk) \<notin> set (detectShell e cyc)" for risk
  proof
    assume "([a, b, c, d], risk) \<in> set (detectShell e cyc)"
    then obtain a' b' c' d' where "([a, b, c, d], risk) = ([a', b', c', d'], shellRisk e a' b' c' d')"
      and "shell_chain e cyc a' b' c' d'"
      using detectShell_sound by blast
    then have "isTemporalChain e a b c d" unfolding shell_chain_def by simp
    with no show False by simp
  qed
  with no show ?thesis by simp
qed

theorem epoch_zero_hop_rejected_witness:
  "getTxTime (buildGraph parse_hours batch_epoch0) ''A'' ''B'' = Some (Ms 0)
   \<and> getTxTime (buildGraph parse_hours batch_epoch0) ''B'' ''C'' = Some (Ms 7200000)
   \<and> getTxTime (buildGraph parse_hours batch_epoch0) ''C'' ''D'' = Some (Ms 10800000)
   \<and> \<not> isTemporalChain (buildGraph parse_hours batch_epoch0) ''A'' ''B'' ''C'' ''D''
   \<and> (\<forall>risk. ([''A'', ''B'', ''C'', ''D''], risk)
          \<notin> set (detectShell (buildGraph parse_hours batch_epoch0) []))"
proof -
  have ab: "getTxTime (buildGraph parse_hours batch_epoch0) ''A'' ''B'' = Some (Ms 0)"
    by code_simp
  have bc: "getTxTime (buildGraph parse_hours batch_epoch0) ''B'' ''C'' = Some (Ms 7200000)"
    by code_simp
  have cd: "getTxTime (buildGraph parse_hours batch_epoch0) ''C'' ''D'' = Some (Ms 10800000)"
    by code_simp
  show ?thesis
    using ab bc cd epoch_zero_hop_rejected [of "buildGraph parse_hours batch_epoch0"
        "''A''" "''B''" "''C''" "''D''" "[]", OF disjI1 [OF ab]]
    by simp
qed

subsection \<open>Smurfing detection\<close>










subsection \<open>The sliding window never reads past the end\<close>

declare advance.simps [simp del] scan.simps [simp del] dfs.simps [simp del]
  string_of_nat.simps [simp del]

lemma not_before_own_window: "\<not> time_lt t (time_sub t WINDOW_MS)"
  by (cases t) (simp_all add: WINDOW_MS_def)

lemma advance_in_range:
  assumes "left \<le> right" and "right < length incoming"
    and "\<not> time_lt (tx_time (incoming ! right)) bound"
  shows "\<exists>l. advance incoming bound left = Inr l \<and> left \<le> l \<and> l \<le> right"
  using assms
proof (induction "right - left" arbitrary: left)
  case 0
  then have "left = right" by simp
  with "0.prems" show ?case by (simp add: advance.simps [of incoming bound right])
next
  case (Suc n)
  then have lt: "left < right" by simp
  show ?case
  proof (cases "time_lt (tx_time (incoming ! left)) bound")
    case True
    have "n = right - Suc left" using Suc.hyps(2) by simp
    from Suc.hyps(1) [OF this] lt Suc.prems(2,3)
    obtain l where "advance incoming bound (Suc left) = Inr l" "Suc left \<le> l" "l \<le> right"
      by auto
    with True lt Suc.prems(2) show ?thesis
      by (simp add: advance.simps [of incoming bound left])
  next
    case False
    with lt Suc.prems(2) show ?thesis
      by (simp add: advance.simps [of incoming bound left])
  qed
qed

lemma length_slice: "length (slice xs i j) \<le> length xs"
  by (simp add: slice_def)

lemma scan_returns:
  assumes "left \<le> right"
  shows "\<exists>w. scan incoming right left best = Inr w \<and> length w \<le> max (length best) (length incoming)"
  using assms
proof (induction "length incoming - right" arbitrary: right left best)
  case 0
  then show ?case by (simp add: scan.simps [of incoming right left best])
next
  case (Suc n)
  then have r: "right < length incoming" by simp
  from advance_in_range [OF Suc.prems r not_before_own_window]
  obtain l where l: "advance incoming (time_sub (tx_time (incoming ! right)) WINDOW_MS) left = Inr l"
    and "left \<le> l" "l \<le> right" by blast
  let ?window = "slice incoming l (right + 1)"
  let ?best = "if length ?window > length best then ?window else best"
  have "n = length incoming - Suc right" using Suc.hyps(2) by simp
  from Suc.hyps(1) [OF this, of l ?best] \<open>l \<le> right\<close>
  obtain w where w: "scan incoming (Suc right) l ?best = Inr w"
    and len: "length w \<le> max (length ?best) (length incoming)" by auto
  have "length ?best \<le> max (length best) (length incoming)"
    using length_slice [of incoming l "right + 1"] by simp
  with len have "length w \<le> max (length best) (length incoming)" by simp
  moreover have "scan incoming right left best = Inr w"
    using r l w by (auto simp: scan.simps [of incoming right left best] Let_def split: if_splits)
  ultimately show ?case by simp
qed

lemma densest_window_returns:
  "\<exists>w. densest_window account txs = Inr w \<and> length w \<le> length (incoming_sorted account txs)"
  using scan_returns [of 0 0 "incoming_sorted account txs" "[]"]
  unfolding densest_window_def by simp




lemma smurf_account_returns: "\<exists>res. smurf_account e account txs = Inr res"
proof -
  obtain w where w: "densest_window account txs = Inr w"
    using densest_window_returns by blast
  show ?thesis
    unfolding smurf_account_def Let_def w
    by (cases w) (simp_all add: MIN_UNIQUE_def)
qed

lemma smurf_fold_returns: "\<exists>rings. fold (smurf_step e) xs (Inr rs0) = Inr rings"
proof (induction xs arbitrary: rs0)
  case Nil
  then show ?case by simp
next
  case (Cons x xs)
  obtain res where res: "smurf_account e (fst x) (snd x) = Inr res"
    using smurf_account_returns by blast
  show ?case
    using Cons [of rs0] Cons [of "rs0 @ [the res]"] res
    by (cases res) (simp_all add: smurf_step_def [of e x])
qed

lemma detectSmurfing_returns: "\<exists>rings. detectSmurfing e = Inr rings"
  unfolding detectSmurfing_def by (rule smurf_fold_returns)







subsection \<open>The registry\<close>

lemma map_of_map_modify:
  "map_of (map_modify m k f) k' = (if k' = k then map_option f (map_of m k) else map_of m k')"
  by (induction m) auto

lemma map_fst_map_modify: "map fst (map_modify m k f) = map fst m"
  by (induction m) auto

lemma set_fold_set_add: "set (fold (\<lambda>x s. set_add s x) xs s0) = set s0 \<union> set xs"
  by (induction xs arbitrary: s0) (auto simp: set_add_def)

lemma distinct_fold_set_add:
  "distinct s0 \<Longrightarrow> distinct (fold (\<lambda>x s. set_add s x) xs s0)"
  by (induction xs arbitrary: s0) (auto simp: set_add_def)

lemma set_new_Set: "set (new_Set xs) = set xs"
  by (simp add: new_Set_def set_fold_set_add)

lemma distinct_new_Set: "distinct (new_Set xs)"
  by (simp add: new_Set_def distinct_fold_set_add)

lemma new_Set_snoc: "new_Set (xs @ [x]) = set_add (new_Set xs) x"
  by (simp add: new_Set_def)

lemma best_ring_snoc:
  "best_ring b (gs @ [g]) =
     (if risk_score g > risk_score (best_ring b gs) then g else best_ring b gs)"
  by (induction gs arbitrary: b) auto

lemma best_ring_split:
  "\<exists>pre post. b # gs = pre @ best_ring b gs # post
      \<and> (\<forall>g \<in> set pre. risk_score g < risk_score (best_ring b gs))
      \<and> (\<forall>g \<in> set post. risk_score g \<le> risk_score (best_ring b gs))"
proof (induction gs rule: rev_induct)
  case Nil
  show ?case by (rule exI [of _ "[]"], rule exI [of _ "[]"]) simp
next
  case (snoc g gs)
  then obtain pre post where split: "b # gs = pre @ best_ring b gs # post"
    and pre: "\<forall>x \<in> set pre. risk_score x < risk_score (best_ring b gs)"
    and post: "\<forall>x \<in> set post. risk_score x \<le> risk_score (best_ring b gs)"
    by blast
  show ?case
  proof (cases "risk_score g > risk_score (best_ring b gs)")
    case True
    have all: "\<forall>x \<in> set (b # gs). risk_score x < risk_score g"
      unfolding split using pre post True by auto
    show ?thesis
      by (rule exI [of _ "b # gs"], rule exI [of _ "[]"])
        (use True all in \<open>simp add: best_ring_snoc\<close>)
  next
    case False
    show ?thesis
      by (rule exI [of _ pre], rule exI [of _ "post @ [g]"])
        (use False split pre post in \<open>auto simp: best_ring_snoc\<close>)
  qed
qed

lemma best_ring_Max:
  "risk_score (best_ring b gs) = Max (risk_score ` set (b # gs))"
proof -
  obtain pre post where split: "b # gs = pre @ best_ring b gs # post"
    and pre: "\<forall>x \<in> set pre. risk_score x < risk_score (best_ring b gs)"
    and post: "\<forall>x \<in> set post. risk_score x \<le> risk_score (best_ring b gs)"
    using best_ring_split by blast
  have mem: "best_ring b gs \<in> set (b # gs)" unfolding split by simp
  have le: "risk_score x \<le> risk_score (best_ring b gs)" if "x \<in> set (b # gs)" for x
    using that pre post unfolding split by (auto intro: less_imp_le)
  show ?thesis
    by (rule Max_eqI [symmetric]) (use mem le in auto)
qed

lemma merged_single:
  "merged acc [g] = \<lparr>account_id = acc, suspicion_score = risk_score g,
                      detected_patterns = [pattern_type g], sa_ring_id = ring_id g\<rparr>"
  by (simp add: merged_def new_Set_def set_add_def)

lemma merged_snoc:
  assumes "gs \<noteq> []"
  shows "merged acc (gs @ [g])
           = merge_existing (pattern_type g) (risk_score g) (ring_id g) (merged acc gs)"
  using assms
  by (simp add: merged_def merge_existing_def best_ring_snoc new_Set_snoc set_add_def Let_def)

lemma upd_entry_idem:
  "upd_entry acc pat s rid (Some (upd_entry acc pat s rid old)) = upd_entry acc pat s rid old"
  by (cases old) (simp_all add: upd_entry_def merge_existing_def Let_def)

lemma addRing_member_map_of:
  "map_of (addRing_member e pat s rid a m) k =
     (if k = a \<and> \<not> isMerchant e a None None
      then Some (upd_entry a pat s rid (map_of m a)) else map_of m k)"
  unfolding addRing_member_def map_get_def upd_entry_def
  by (auto simp: map_of_map_modify map_add_def split: option.splits)

lemma addRing_member_distinct:
  "distinct (map fst m) \<Longrightarrow> distinct (map fst (addRing_member e pat s rid a m))"
  unfolding addRing_member_def map_get_def
  by (auto simp: map_fst_map_modify map_of_eq_None_iff split: option.splits)

lemma addRing_members_map_of:
  "map_of (fold (addRing_member e pat s rid) accounts m) k =
     (if k \<in> set accounts \<and> \<not> isMerchant e k None None
      then Some (upd_entry k pat s rid (map_of m k)) else map_of m k)"
proof (induction accounts arbitrary: m)
  case Nil
  then show ?case by simp
next
  case (Cons a accounts)
  show ?case
    by (auto simp: Cons addRing_member_map_of upd_entry_idem)
qed

lemma addRing_members_distinct:
  "distinct (map fst m) \<Longrightarrow> distinct (map fst (fold (addRing_member e pat s rid) accounts m))"
  by (induction accounts arbitrary: m) (simp_all add: addRing_member_distinct)

lemma expected_entry_snoc:
  "expected_entry e (gs @ [g]) acc =
     (if isMerchant e acc None None then None
      else if acc \<in> set (member_accounts g)
      then Some (upd_entry acc (pattern_type g) (risk_score g) (ring_id g) (expected_entry e gs acc))
      else expected_entry e gs acc)"
proof (cases "isMerchant e acc None None \<or> acc \<notin> set (member_accounts g)")
  case True
  then show ?thesis by (auto simp: expected_entry_def rings_of_def)
next
  case False
  then have rings: "rings_of acc (gs @ [g]) = rings_of acc gs @ [g]"
    by (simp add: rings_of_def)
  show ?thesis
  proof (cases "rings_of acc gs = []")
    case True
    then show ?thesis
      using False by (simp add: expected_entry_def rings upd_entry_def merged_single)
  next
    case ne: False
    then show ?thesis
      using False by (simp add: expected_entry_def rings upd_entry_def merged_snoc)
  qed
qed

lemma addRing_inv:
  assumes "registry_inv e reg"
  shows "registry_inv e (addRing e accounts pat risk reg)"
proof -
  define rid where "rid = ''RING_'' @ padStart3 (string_of_nat (ringCounter reg))"
  define s where "s = riskScore_of risk"
  define g where
    "g = \<lparr>ring_id = rid, member_accounts = accounts, pattern_type = pat, risk_score = s\<rparr>"
  let ?m = "fold (addRing_member e pat s rid) accounts (suspiciousMap reg)"
  have reg': "suspiciousMap (addRing e accounts pat risk reg) = ?m"
    "fraudRings (addRing e accounts pat risk reg) = fraudRings reg @ [g]"
    by (simp_all add: addRing_def Let_def rid_def s_def g_def)
  have g: "member_accounts g = accounts" "pattern_type g = pat" "risk_score g = s"
    "ring_id g = rid"
    by (simp_all add: g_def)
  have old: "map_of (suspiciousMap reg) acc = expected_entry e (fraudRings reg) acc" for acc
    using assms by (simp add: registry_inv_def)
  have merchant: "expected_entry e gs acc = None" if "isMerchant e acc None None" for gs acc
    using that by (simp add: expected_entry_def)
  have "map_of ?m acc = expected_entry e (fraudRings reg @ [g]) acc" for acc
    by (simp add: addRing_members_map_of old expected_entry_snoc g merchant)
  moreover have "distinct (map fst ?m)"
    using assms by (simp add: registry_inv_def addRing_members_distinct)
  ultimately show ?thesis unfolding registry_inv_def reg' by simp
qed

lemma initial_registry_inv: "registry_inv e initial_registry"
  by (simp add: registry_inv_def initial_registry_def expected_entry_def rings_of_def)

lemma add_cycles_inv:
  assumes "registry_inv e (fst st)"
  shows "registry_inv e (fst (add_cycles e cycles st))"
  unfolding add_cycles_def
  by (rule fold_invariant [where I = "\<lambda>s. registry_inv e (fst s)"])
    (auto simp: assms addRing_inv split: prod.splits)

lemma insert_sorted_set: "set (insert_sorted gt x xs) = insert x (set xs)"
  by (induction xs) auto

lemma js_sort_set: "set (js_sort gt xs) = set xs"
  by (induction xs) (simp_all add: js_sort_def insert_sorted_set)

subsection \<open>What \<open>analyze\<close> returns\<close>

lemma addRing_fraudRings:
  "map member_accounts (fraudRings (addRing e accounts pat risk reg))
     = map member_accounts (fraudRings reg) @ [accounts]"
  by (simp add: addRing_def Let_def)

lemma fold_addRing_inv:
  assumes "registry_inv e reg"
  shows "registry_inv e (fold (\<lambda>x. addRing e (fst x) pat (snd x)) xs reg)"
  by (rule fold_invariant [where I = "registry_inv e"]) (auto simp: assms addRing_inv)

lemma fold_addRing_fraudRings:
  "map member_accounts (fraudRings (fold (\<lambda>x. addRing e (fst x) pat (snd x)) xs reg))
     = map member_accounts (fraudRings reg) @ map fst xs"
  by (induction xs arbitrary: reg) (simp_all add: addRing_fraudRings)

lemma add_cycles_fraudRings:
  "map member_accounts (fraudRings (fst (add_cycles e cycles st)))
     = map member_accounts (fraudRings (fst st)) @ cycles"
  unfolding add_cycles_def
  by (induction cycles arbitrary: st) (simp_all add: addRing_fraudRings split: prod.splits)

lemma analyze_registry:
  assumes "analyze lc e = Inr res"
  shows "\<exists>cycles smurfs reg.
           detectCycles lc e 3 5 = Inr cycles \<and> detectSmurfing e = Inr smurfs
           \<and> registry_inv e reg
           \<and> fraud_rings res = fraudRings reg
           \<and> set (suspicious_accounts res) = snd ` set (suspiciousMap reg)
           \<and> map member_accounts (fraud_rings res)
                = cycles @ map fst smurfs
                    @ map fst (detectShell e (snd (add_cycles e cycles (initial_registry, []))))"
proof -
  from assms obtain cycles where cycles: "detectCycles lc e 3 5 = Inr cycles"
    unfolding analyze_def by (auto split: sum.splits)
  from assms cycles obtain smurfs where smurfs: "detectSmurfing e = Inr smurfs"
    unfolding analyze_def by (auto simp: Let_def split: sum.splits)
  let ?st1 = "add_cycles e cycles (initial_registry, [])"
  let ?reg2 = "fold (\<lambda>smurf. addRing e (fst smurf) Smurfing (snd smurf)) smurfs (fst ?st1)"
  let ?shells = "detectShell e (snd ?st1)"
  let ?reg3 = "fold (\<lambda>shell. addRing e (fst shell) Shell (snd shell)) ?shells ?reg2"
  have res: "suspicious_accounts res
               = js_sort (\<lambda>a b. suspicion_score b - suspicion_score a > 0)
                   (map snd (suspiciousMap ?reg3))"
    "fraud_rings res = fraudRings ?reg3"
    using assms cycles smurfs unfolding analyze_def by (auto simp: Let_def)
  have inv: "registry_inv e ?reg3"
    by (intro fold_addRing_inv add_cycles_inv) (simp add: initial_registry_inv)
  have members: "map member_accounts (fraudRings ?reg3) = cycles @ map fst smurfs @ map fst ?shells"
    by (simp add: fold_addRing_fraudRings add_cycles_fraudRings initial_registry_def)
  show ?thesis
    using cycles smurfs inv res members by (auto simp: js_sort_set)
qed

lemma registry_record:
  assumes "registry_inv e reg" and "r \<in> snd ` set (suspiciousMap reg)"
  shows "\<not> isMerchant e (account_id r) None None
         \<and> rings_of (account_id r) (fraudRings reg) \<noteq> []
         \<and> r = merged (account_id r) (rings_of (account_id r) (fraudRings reg))"
proof -
  from assms(2) obtain k where k: "(k, r) \<in> set (suspiciousMap reg)" by auto
  have "distinct (map fst (suspiciousMap reg))" using assms(1) by (simp add: registry_inv_def)
  with k have "map_of (suspiciousMap reg) k = Some r" by simp
  then have ex: "expected_entry e (fraudRings reg) k = Some r"
    using assms(1) by (simp add: registry_inv_def)
  then have nm: "\<not> isMerchant e k None None" and ne: "rings_of k (fraudRings reg) \<noteq> []"
    and r: "r = merged k (rings_of k (fraudRings reg))"
    by (auto simp: expected_entry_def split: if_splits)
  have "account_id r = k" unfolding r by (simp add: merged_def)
  with nm ne r show ?thesis by simp
qed

lemma registry_has_record:
  assumes "registry_inv e reg" and "\<not> isMerchant e acc None None"
    and "rings_of acc (fraudRings reg) \<noteq> []"
  shows "merged acc (rings_of acc (fraudRings reg)) \<in> snd ` set (suspiciousMap reg)"
proof -
  have "map_of (suspiciousMap reg) acc = Some (merged acc (rings_of acc (fraudRings reg)))"
    using assms by (simp add: registry_inv_def expected_entry_def)
  then have "(acc, merged acc (rings_of acc (fraudRings reg))) \<in> set (suspiciousMap reg)"
    by (rule map_of_SomeD)
  then show ?thesis by force
qed

lemma merged_properties:
  assumes "gs \<noteq> []"
  shows "suspicion_score (merged acc gs) = Max (risk_score ` set gs)"
    and "set (detected_patterns (merged acc gs)) = pattern_type ` set gs"
    and "distinct (detected_patterns (merged acc gs))"
    and "\<exists>pre best post. gs = pre @ best # post
            \<and> sa_ring_id (merged acc gs) = ring_id best
            \<and> risk_score best = suspicion_score (merged acc gs)
            \<and> (\<forall>g \<in> set pre. risk_score g < risk_score best)
            \<and> (\<forall>g \<in> set post. risk_score g \<le> risk_score best)"
proof -
  obtain g0 gs' where gs: "gs = g0 # gs'" using assms by (cases gs) auto
  show "suspicion_score (merged acc gs) = Max (risk_score ` set gs)"
    unfolding gs using best_ring_Max [of g0 gs'] by (simp add: merged_def)
  show "set (detected_patterns (merged acc gs)) = pattern_type ` set gs"
    by (simp add: merged_def set_new_Set)
  show "distinct (detected_patterns (merged acc gs))"
    by (simp add: merged_def distinct_new_Set)
  have m: "sa_ring_id (merged acc gs) = ring_id (best_ring g0 gs')"
    "suspicion_score (merged acc gs) = risk_score (best_ring g0 gs')"
    by (simp_all add: merged_def gs)
  from best_ring_split [of g0 gs'] obtain pre post
    where split: "gs = pre @ best_ring g0 gs' # post"
      and pre: "\<forall>g \<in> set pre. risk_score g < risk_score (best_ring g0 gs')"
      and post: "\<forall>g \<in> set post. risk_score g \<le> risk_score (best_ring g0 gs')"
    unfolding gs by blast
  show "\<exists>pre best post. gs = pre @ best # post
            \<and> sa_ring_id (merged acc gs) = ring_id best
            \<and> risk_score best = suspicion_score (merged acc gs)
            \<and> (\<forall>g \<in> set pre. risk_score g < risk_score best)
            \<and> (\<forall>g \<in> set post. risk_score g \<le> risk_score best)"
    unfolding m
    by (rule exI [of _ pre], rule exI [of _ "best_ring g0 gs'"], rule exI [of _ post])
      (use split pre post in blast)
qed

lemma analyze_shell_into_cycle:
  "analyze codeUnitCompare engine_shell_into_cycle = Inr result_shell_into_cycle"
  by code_simp

text \<open>
  C3. In the result of \<open>analyze\<close>, the record of an account is merged from the
  emitted rings the account belongs to (one or more, so in particular two or more):
  its score is the maximum of their scores, its patterns are their pattern labels
  without duplicates, and its ring is a ring of maximal score, namely the first of
  them in emission order, since the stored ring and score are replaced only by a later
  ring with a strictly greater score. Every account of an emitted ring that is not
  merchant or payroll has exactly one such record.
\<close>

theorem suspicion_record_merges_rings:
  assumes "analyze lc e = Inr res"
  shows "(\<forall>r \<in> set (suspicious_accounts res).
            rings_of (account_id r) (fraud_rings res) \<noteq> []
            \<and> suspicion_score r
                = Max (risk_score ` set (rings_of (account_id r) (fraud_rings res)))
            \<and> set (detected_patterns r)
                = pattern_type ` set (rings_of (account_id r) (fraud_rings res))
            \<and> distinct (detected_patterns r)
            \<and> (\<exists>pre best post.
                  rings_of (account_id r) (fraud_rings res) = pre @ best # post
                  \<and> sa_ring_id r = ring_id best
                  \<and> risk_score best = suspicion_score r
                  \<and> (\<forall>g \<in> set pre. risk_score g < risk_score best)
                  \<and> (\<forall>g \<in> set post. risk_score g \<le> risk_score best)))
       \<and> (\<forall>acc. \<not> isMerchant e acc None None \<and> rings_of acc (fraud_rings res) \<noteq> [] \<longrightarrow>
             (\<exists>r \<in> set (suspicious_accounts res). account_id r = acc
                \<and> (\<forall>r' \<in> set (suspicious_accounts res). account_id r' = acc \<longrightarrow> r' = r)))"
proof -
  from analyze_registry [OF assms] obtain reg
    where inv: "registry_inv e reg" and rings: "fraud_rings res = fraudRings reg"
      and recs: "set (suspicious_accounts res) = snd ` set (suspiciousMap reg)"
    by blast
  have rec: "rings_of (account_id r) (fraud_rings res) \<noteq> []
        \<and> r = merged (account_id r) (rings_of (account_id r) (fraud_rings res))"
    if "r \<in> set (suspicious_accounts res)" for r
    using registry_record [OF inv, of r] that unfolding recs rings by simp
  have first: "rings_of (account_id r) (fraud_rings res) \<noteq> []
            \<and> suspicion_score r
                = Max (risk_score ` set (rings_of (account_id r) (fraud_rings res)))
            \<and> set (detected_patterns r)
                = pattern_type ` set (rings_of (account_id r) (fraud_rings res))
            \<and> distinct (detected_patterns r)
            \<and> (\<exists>pre best post.
                  rings_of (account_id r) (fraud_rings res) = pre @ best # post
                  \<and> sa_ring_id r = ring_id best
                  \<and> risk_score best = suspicion_score r
                  \<and> (\<forall>g \<in> set pre. risk_score g < risk_score best)
                  \<and> (\<forall>g \<in> set post. risk_score g \<le> risk_score best))"
    if r: "r \<in> set (suspicious_accounts res)" for r
  proof -
    let ?gs = "rings_of (account_id r) (fraud_rings res)"
    from rec [OF r] have ne: "?gs \<noteq> []" and eq: "r = merged (account_id r) ?gs" by simp_all
    from merged_properties [OF ne, of "account_id r"] ne show ?thesis
      unfolding eq [symmetric] by blast
  qed
  have second: "\<exists>r \<in> set (suspicious_accounts res). account_id r = acc
                \<and> (\<forall>r' \<in> set (suspicious_accounts res). account_id r' = acc \<longrightarrow> r' = r)"
    if "\<not> isMerchant e acc None None \<and> rings_of acc (fraud_rings res) \<noteq> []" for acc
  proof -
    let ?r = "merged acc (rings_of acc (fraud_rings res))"
    have mem: "?r \<in> set (suspicious_accounts res)"
      using registry_has_record [OF inv, of acc] that unfolding recs rings by simp
    have id: "account_id ?r = acc" by (simp add: merged_def)
    have "r' = ?r" if "r' \<in> set (suspicious_accounts res)" "account_id r' = acc" for r'
      using rec [OF that(1)] that(2) by simp
    with mem id show ?thesis by blast
  qed
  from first second show ?thesis by blast
qed

theorem suspicion_record_merges_rings_witness:
  "analyze codeUnitCompare engine_shell_into_cycle = Inr result_shell_into_cycle
   \<and> hd (suspicious_accounts result_shell_into_cycle) \<in> set (suspicious_accounts result_shell_into_cycle)
   \<and> account_id (hd (suspicious_accounts result_shell_into_cycle)) = ''D''
   \<and> rings_of ''D'' (fraud_rings result_shell_into_cycle) = rings_shell_into_cycle
   \<and> suspicion_score (hd (suspicious_accounts result_shell_into_cycle))
        = Max (risk_score ` set rings_shell_into_cycle)
   \<and> suspicion_score (hd (suspicious_accounts result_shell_into_cycle)) = 85
   \<and> set (detected_patterns (hd (suspicious_accounts result_shell_into_cycle)))
        = pattern_type ` set rings_shell_into_cycle
   \<and> detected_patterns (hd (suspicious_accounts result_shell_into_cycle)) = [Cycle, Shell]
   \<and> sa_ring_id (hd (suspicious_accounts result_shell_into_cycle)) = ''RING_001''"
proof -
  let ?r = "hd (suspicious_accounts result_shell_into_cycle)"
  have rings: "rings_of ''D'' (fraud_rings result_shell_into_cycle) = rings_shell_into_cycle"
    by (simp add: rings_of_def result_shell_into_cycle_def rings_shell_into_cycle_def)
  have mem: "?r \<in> set (suspicious_accounts result_shell_into_cycle)"
    and id: "account_id ?r = ''D''"
    and vals: "suspicion_score ?r = 85" "detected_patterns ?r = [Cycle, Shell]"
      "sa_ring_id ?r = ''RING_001''"
    by (simp_all add: result_shell_into_cycle_def)
  from suspicion_record_merges_rings [OF analyze_shell_into_cycle] mem
  have "suspicion_score ?r
          = Max (risk_score ` set (rings_of (account_id ?r) (fraud_rings result_shell_into_cycle)))"
    and "set (detected_patterns ?r)
          = pattern_type ` set (rings_of (account_id ?r) (fraud_rings result_shell_into_cycle))"
    by blast+
  then have "suspicion_score ?r = Max (risk_score ` set rings_shell_into_cycle)"
    and "set (detected_patterns ?r) = pattern_type ` set rings_shell_into_cycle"
    unfolding id rings by simp_all
  with analyze_shell_into_cycle mem id rings vals show ?thesis by simp
qed

lemma merchant_example_isMerchant:
  assumes "merchant_example e account"
  shows "isMerchant e account None None"
proof -
  let ?txs = "map_get_or_empty (accountTx e) account"
  let ?incoming = "filter (\<lambda>t. receiver_id t = account) ?txs"
  let ?outgoing = "filter (\<lambda>t. sender_id t = account) ?txs"
  from assms have len: "length ?incoming = 150" and out: "length ?outgoing = 0"
    and avg: "sum_amount ?incoming / of_nat (length ?incoming) = 5000"
    unfolding merchant_example_def Let_def by blast+
  have "length ?incoming > MERCHANT_IN_THRESHOLD \<and> length ?outgoing = 0
        \<and> (if length ?incoming > 0 then sum_amount ?incoming / of_nat (length ?incoming) else 0)
            > MERCHANT_AVG_AMOUNT"
    unfolding avg using len out by (simp add: MERCHANT_IN_THRESHOLD_def MERCHANT_AVG_AMOUNT_def)
  then show ?thesis
    unfolding isMerchant_def Let_def by simp
qed

text \<open>
  C7. An account that satisfies the merchant or payroll predicate on its full history
  has no record in \<open>suspicious_accounts\<close>; this holds in particular for an account
  with 150 incoming transactions of average amount 5000 and no outgoing one. The
  member lists of the emitted rings are the lists the three detectors returned, with
  nothing filtered out, so such an account may still be a ring member.
\<close>

theorem merchants_never_flagged:
  assumes "analyze lc e = Inr res"
  shows "(\<forall>r \<in> set (suspicious_accounts res). \<not> isMerchant e (account_id r) None None)
       \<and> (\<forall>account. merchant_example e account \<longrightarrow>
             isMerchant e account None None
             \<and> account \<notin> account_id ` set (suspicious_accounts res))
       \<and> (\<exists>cycles smurfs.
             detectCycles lc e 3 5 = Inr cycles \<and> detectSmurfing e = Inr smurfs
             \<and> map member_accounts (fraud_rings res)
                  = cycles @ map fst smurfs
                      @ map fst (detectShell e (snd (add_cycles e cycles (initial_registry, [])))))"
proof -
  from analyze_registry [OF assms] obtain cycles smurfs reg
    where det: "detectCycles lc e 3 5 = Inr cycles" "detectSmurfing e = Inr smurfs"
      and inv: "registry_inv e reg"
      and recs: "set (suspicious_accounts res) = snd ` set (suspiciousMap reg)"
      and members: "map member_accounts (fraud_rings res)
                = cycles @ map fst smurfs
                    @ map fst (detectShell e (snd (add_cycles e cycles (initial_registry, []))))"
    by blast
  have first: "\<not> isMerchant e (account_id r) None None"
    if "r \<in> set (suspicious_accounts res)" for r
    using registry_record [OF inv, of r] that unfolding recs by simp
  have second: "isMerchant e account None None
             \<and> account \<notin> account_id ` set (suspicious_accounts res)"
    if "merchant_example e account" for account
    using merchant_example_isMerchant [OF that] first by auto
  show ?thesis using first second det members by blast
qed

theorem merchants_never_flagged_witness:
  "analyze codeUnitCompare engine_merchant = Inr result_merchant
   \<and> merchant_example engine_merchant ''M''
   \<and> isMerchant engine_merchant ''M'' None None
   \<and> ''M'' \<notin> account_id ` set (suspicious_accounts result_merchant)
   \<and> [''A'', ''B'', ''C'', ''M''] \<in> set (map member_accounts (fraud_rings result_merchant))
   \<and> map account_id (suspicious_accounts result_merchant) = [''A'', ''B'', ''C'']
   \<and> \<not> isMerchant engine_merchant ''A'' None None"
proof -
  have "let e = engine_merchant
        in analyze codeUnitCompare e = Inr result_merchant \<and> merchant_example e ''M''"
    by code_simp
  then have res: "analyze codeUnitCompare engine_merchant = Inr result_merchant"
    and ex: "merchant_example engine_merchant ''M''"
    unfolding Let_def by blast+
  have ring: "[''A'', ''B'', ''C'', ''M''] \<in> set (map member_accounts (fraud_rings result_merchant))"
    and ids: "map account_id (suspicious_accounts result_merchant) = [''A'', ''B'', ''C'']"
    and a: "hd (suspicious_accounts result_merchant) \<in> set (suspicious_accounts result_merchant)"
      "account_id (hd (suspicious_accounts result_merchant)) = ''A''"
    by (simp_all add: result_merchant_def)
  from merchants_never_flagged [OF res] a
  have "\<not> isMerchant engine_merchant ''A'' None None" by metis
  with res ex ring ids merchants_never_flagged [OF res] show ?thesis by blast
qed

subsection \<open>Cycle detection never throws\<close>

lemma length_insert_sorted: "length (insert_sorted gt x xs) = Suc (length xs)"
  by (induction xs) auto

lemma length_js_sort: "length (js_sort gt xs) = length xs"
  by (induction xs) (simp_all add: js_sort_def length_insert_sorted)

lemma canonicalize_returns:
  assumes "arr \<noteq> []"
  shows "\<exists>key. canonicalize lc arr = Inr key"
proof -
  let ?rotations = "rotations_of arr @ rotations_of (rev arr)"
  let ?sorted = "js_sort (\<lambda>a b. lc (join '','' a) (join '','' b) > 0) ?rotations"
  have "length ?sorted = 2 * length arr"
    by (simp add: length_js_sort rotations_of_def)
  with assms have "?sorted \<noteq> []" by auto
  then obtain r rs where "?sorted = r # rs" by (cases ?sorted) auto
  then show ?thesis by (simp add: canonicalize_def Let_def)
qed

lemma emit_returns:
  assumes "path \<noteq> []"
  shows "\<exists>st'. emit lc path st = Inr st'"
  using canonicalize_returns [OF assms, of lc] by (auto simp: emit_def)

lemma dfs_returns_aux:
  "acc = Inr st \<longrightarrow> path \<noteq> [] \<longrightarrow>
     (\<exists>st'. dfs lc adj mn mx start current path visited acc = Inr st')"
proof (induction lc adj mn mx start current path visited acc arbitrary: st rule: dfs.induct)
  case (1 lc adj mn mx start current path visited acc)
  show ?case
  proof (intro impI)
    assume acc: "acc = Inr st" and ne: "path \<noteq> []"
    show "\<exists>st'. dfs lc adj mn mx start current path visited acc = Inr st'"
    proof (cases "mx < length path")
      case True
      then show ?thesis by (simp add: dfs.simps [of lc adj mn mx start current path] acc)
    next
      case deep: False
      show ?thesis
      proof (cases "map_get adj current")
        case None
        then show ?thesis
          by (simp add: dfs.simps [of lc adj mn mx start current path] acc deep)
      next
        case (Some neighbors)
        let ?step = "\<lambda>next acc1.
            case acc1 of
              Inl err \<Rightarrow> Inl err
            | Inr st1 \<Rightarrow>
                let acc2 = (if next = start \<and> length path \<ge> mn
                            then emit lc path st1 else Inr st1)
                in if next \<notin> set visited
                   then dfs lc adj mn mx start next (path @ [next]) (set_add visited next) acc2
                   else acc2"
        have "\<exists>s. fold ?step neighbors (Inr st) = Inr s"
        proof (rule fold_invariant [where I = "\<lambda>a :: error + cycle_state. \<exists>s. a = Inr s"])
          show "\<exists>s :: cycle_state. Inr st = Inr s" by simp
        next
          fix x :: string and a :: "error + cycle_state"
          assume x: "x \<in> set neighbors" and "\<exists>s. a = Inr s"
          then obtain st1 where a: "a = Inr st1" by blast
          let ?acc2 = "if x = start \<and> length path \<ge> mn then emit lc path st1 else Inr st1"
          obtain st2 where acc2: "?acc2 = Inr st2"
            using emit_returns [OF ne, of lc st1] by (cases "x = start \<and> length path \<ge> mn") auto
          show "\<exists>s. ?step x a = Inr s"
          proof (cases "x \<in> set visited")
            case True
            then show ?thesis using acc2 by (simp add: a Let_def)
          next
            case False
            from "1.IH" [OF acc deep Some x refl False, of st1 st2] acc2
            have "\<exists>st'. dfs lc adj mn mx start x (path @ [x]) (set_add visited x) ?acc2 = Inr st'"
              by simp
            then show ?thesis using False by (simp add: a Let_def)
          qed
        qed
        then show ?thesis
          by (simp add: dfs.simps [of lc adj mn mx start current path] acc deep Some)
      qed
    qed
  qed
qed

lemma dfs_returns:
  assumes "path \<noteq> []"
  shows "\<exists>st'. dfs lc adj mn mx start current path visited (Inr st) = Inr st'"
  using dfs_returns_aux [of "Inr st" st path lc adj mn mx start current visited] assms by simp

lemma detectCycles_returns: "\<exists>cycles. detectCycles lc e mn mx = Inr cycles"
proof -
  let ?step = "\<lambda>node acc. dfs lc (adjacency e) mn mx node node [node] (new_Set [node]) acc"
  have "\<exists>s. fold ?step (map fst (adjacency e)) (Inr ([], [])) = Inr s"
  proof (rule fold_invariant [where I = "\<lambda>a :: error + cycle_state. \<exists>s. a = Inr s"])
    show "\<exists>s :: cycle_state. Inr ([], []) = Inr s" by simp
  next
    fix x :: string and a :: "error + cycle_state"
    assume "\<exists>s. a = Inr s"
    then obtain s where "a = Inr s" by blast
    then show "\<exists>s. ?step x a = Inr s"
      using dfs_returns [of "[x]" lc "adjacency e" mn mx x x "new_Set [x]" s] by simp
  qed
  then show ?thesis unfolding detectCycles_def by auto
qed

lemma analyze_returns: "\<exists>res. analyze lc e = Inr res"
proof -
  obtain cycles where "detectCycles lc e 3 5 = Inr cycles"
    using detectCycles_returns by blast
  moreover obtain smurfs where "detectSmurfing e = Inr smurfs"
    using detectSmurfing_returns by blast
  ultimately show ?thesis by (simp add: analyze_def Let_def)
qed

subsection \<open>Unparsable timestamps\<close>

lemma tx_time_stamp: "tx_time (stamp parse tx) = parse (timestamp tx)"
  by (simp add: stamp_def Transaction.extend_def TimedTx.fields_def)

lemma transactions_buildGraph: "transactions (buildGraph parse txs) = map (stamp parse) txs"
  by (simp add: buildGraph_def Let_def)

text \<open>
  C1, as the specification states it: a batch with an unparsable timestamp makes the
  analysis fail and no result is produced. The engine does otherwise: on the batch
  below every timestamp is unparsable, the cached times are NaN, and \<open>analyze\<close>
  returns a result with one cycle ring.
\<close>

theorem unparsable_timestamp_counterexample:
  "map (\<lambda>tx. parse_hours (timestamp tx)) batch_unparsable = [NaN, NaN, NaN]
   \<and> map tx_time (transactions (buildGraph parse_hours batch_unparsable)) = [NaN, NaN, NaN]
   \<and> run parse_hours codeUnitCompare batch_unparsable = Inr result_unparsable"
  by code_simp

text \<open>
  C1, amended to what the engine does: an unparsable timestamp is not an error.
  \<open>buildGraph\<close> caches whatever the parser returns as the time of the transaction
  (NaN for a string that does not parse), \<open>analyze\<close> returns a result for every
  batch, and every comparison in which a NaN time takes part is false.
\<close>

theorem analysis_never_fails:
  "(\<exists>res. run parse lc txs = Inr res)
   \<and> map tx_time (transactions (buildGraph parse txs)) = map (\<lambda>tx. parse (timestamp tx)) txs
   \<and> \<not> time_lt NaN t \<and> \<not> time_lt t NaN \<and> \<not> time_le NaN t \<and> \<not> time_le t NaN
   \<and> \<not> time_pos (time_diff NaN t) \<and> \<not> time_pos (time_diff t NaN)"
proof -
  have "\<exists>res. run parse lc txs = Inr res"
    unfolding run_def by (rule analyze_returns)
  moreover have "map tx_time (transactions (buildGraph parse txs))
      = map (\<lambda>tx. parse (timestamp tx)) txs"
    by (simp add: transactions_buildGraph tx_time_stamp)
  moreover have "\<not> time_lt NaN t \<and> \<not> time_lt t NaN \<and> \<not> time_le NaN t \<and> \<not> time_le t NaN
      \<and> \<not> time_pos (time_diff NaN t) \<and> \<not> time_pos (time_diff t NaN)"
    by (cases t) simp_all
  ultimately show ?thesis by blast
qed

subsection \<open>Cycle members and shell chains\<close>

text \<open>
  C2 at a concrete batch. The cycle detector finds \<open>D \<rightarrow> E \<rightarrow> F \<rightarrow> D\<close>, so the
  shell detector is called with the exclusion set \<open>{D, E, F}\<close>; it still emits the
  chain \<open>A \<rightarrow> B \<rightarrow> C \<rightarrow> D\<close>, whose last node is a cycle member: the loop over
  \<open>d\<close> does not consult the exclusion set.
\<close>

theorem shell_ring_ends_in_cycle_member:
  "run parse_hours codeUnitCompare batch_shell_into_cycle = Inr result_shell_into_cycle
   \<and> detectCycles codeUnitCompare engine_shell_into_cycle 3 5 = Inr [[''D'', ''E'', ''F'']]
   \<and> snd (add_cycles engine_shell_into_cycle [[''D'', ''E'', ''F'']] (initial_registry, []))
        = [''D'', ''E'', ''F'']
   \<and> detectShell engine_shell_into_cycle [''D'', ''E'', ''F'']
        = [([''A'', ''B'', ''C'', ''D''], 8 / 10)]"
proof -
  have "run parse_hours codeUnitCompare batch_shell_into_cycle = Inr result_shell_into_cycle"
    using analyze_shell_into_cycle by (simp add: run_def engine_shell_into_cycle_def)
  moreover have "let e = engine_shell_into_cycle
     in detectCycles codeUnitCompare e 3 5 = Inr [[''D'', ''E'', ''F'']]
        \<and> snd (add_cycles e [[''D'', ''E'', ''F'']] (initial_registry, [])) = [''D'', ''E'', ''F'']
        \<and> detectShell e [''D'', ''E'', ''F''] = [([''A'', ''B'', ''C'', ''D''], 8 / 10)]"
    by code_simp
  ultimately show ?thesis unfolding Let_def by blast
qed

text \<open>What does hold: the first three nodes of an emitted chain are not in the exclusion set.\<close>

lemma shell_ring_first_three_excluded:
  assumes "ring \<in> set (detectShell e cyc)"
  shows "\<exists>a b c d. fst ring = [a, b, c, d] \<and> a \<notin> set cyc \<and> b \<notin> set cyc \<and> c \<notin> set cyc"
  using detectShell_sound [OF assms] unfolding shell_chain_def by auto

subsection \<open>The canonical key of a cycle\<close>

text \<open>
  C5 at a concrete sequence. The three rotations of \<open>[a, (a,a), (a,a,a)]\<close> and the
  three rotations of its reversal all join, with the comma, to the same string, so the
  comparator sees six equal candidates and the stable sort keeps the first one, the
  argument itself. The key, joined with the bar, is then different for each rotation.
  This holds for every comparator that finds a string equal to itself.
\<close>

theorem canonicalize_depends_on_rotation:
  assumes "lc ''a,a,a,a,a,a'' ''a,a,a,a,a,a'' = 0"
  shows "canonicalize lc [''a'', ''a,a'', ''a,a,a''] = Inr ''a|a,a|a,a,a''
       \<and> canonicalize lc [''a,a'', ''a,a,a'', ''a''] = Inr ''a,a|a,a,a|a''
       \<and> canonicalize lc (rev [''a'', ''a,a'', ''a,a,a'']) = Inr ''a,a,a|a,a|a''"
  using assms
  by (simp add: canonicalize_def rotations_of_def js_sort_def Let_def upt_rec [of 0]
      upt_rec [of "Suc 0"] upt_rec [of "Suc (Suc 0)"] numeral_3_eq_3)

theorem canonicalize_depends_on_rotation_witness:
  "codeUnitCompare ''a,a,a,a,a,a'' ''a,a,a,a,a,a'' = 0
   \<and> canonicalize codeUnitCompare [''a'', ''a,a'', ''a,a,a'']
        \<noteq> canonicalize codeUnitCompare [''a,a'', ''a,a,a'', ''a'']
   \<and> canonicalize codeUnitCompare [''a'', ''a,a'', ''a,a,a'']
        \<noteq> canonicalize codeUnitCompare (rev [''a'', ''a,a'', ''a,a,a''])"
proof -
  have h: "codeUnitCompare ''a,a,a,a,a,a'' ''a,a,a,a,a,a'' = 0" by simp
  from canonicalize_depends_on_rotation [of codeUnitCompare, OF h] h show ?thesis by simp
qed

text \<open>
  C4 at a concrete batch. The graph has one directed cycle, \<open>a \<rightarrow> a,a \<rightarrow> a,a,a \<rightarrow> a\<close>.
  The search finds it from each of its three nodes, each time with another canonical
  key, and reports it three times.
\<close>

theorem one_cycle_reported_three_times:
  "detectCycles codeUnitCompare (buildGraph parse_hours batch_comma_cycle) 3 5
     = Inr [[''a'', ''a,a'', ''a,a,a''], [''a,a'', ''a,a,a'', ''a''], [''a,a,a'', ''a'', ''a,a'']]
   \<and> adjacency (buildGraph parse_hours batch_comma_cycle)
     = [(''a'', [''a,a'']), (''a,a'', [''a,a,a'']), (''a,a,a'', [''a''])]"
  by code_simp

subsection \<open>Cycle detection: what is emitted\<close>

lemma is_walk_snoc:
  assumes "path \<noteq> []" and "is_walk adj path" and "has_edge adj (last path) x"
  shows "is_walk adj (path @ [x])"
  using assms by (induction adj path rule: is_walk.induct) auto

lemma emit_inv:
  assumes "cycles_inv adj mn mx (Inr st)" and "simple_cycle adj path"
    and "mn \<le> length path" and "length path \<le> mx"
  shows "cycles_inv adj mn mx (emit lc path st)"
  using assms unfolding emit_def cycles_inv_def
  by (auto split: sum.splits)

lemma dfs_Inl: "dfs lc adj mn mx start current path visited (Inl err) = Inl err"
  by (simp add: dfs.simps [of lc adj mn mx start current path visited "Inl err"])

lemma dfs_sound_aux:
  "cycles_inv adj mn mx acc \<longrightarrow> dfs_pre adj start current path visited \<longrightarrow>
     cycles_inv adj mn mx (dfs lc adj mn mx start current path visited acc)"
proof (induction lc adj mn mx start current path visited acc rule: dfs.induct)
  case (1 lc adj mn mx start current path visited acc)
  show ?case
  proof (intro impI)
    assume inv: "cycles_inv adj mn mx acc" and pre: "dfs_pre adj start current path visited"
    show "cycles_inv adj mn mx (dfs lc adj mn mx start current path visited acc)"
    proof (cases acc)
      case (Inl err)
      then show ?thesis by (simp add: dfs_Inl cycles_inv_def)
    next
      case (Inr st)
      show ?thesis
      proof (cases "mx < length path")
        case True
        then show ?thesis
          using inv by (simp add: dfs.simps [of lc adj mn mx start current path] Inr)
      next
        case deep: False
        show ?thesis
        proof (cases "map_get adj current")
          case None
          then show ?thesis
            using inv by (simp add: dfs.simps [of lc adj mn mx start current path] Inr deep)
        next
          case (Some neighbors)
          let ?step = "\<lambda>next acc1.
              case acc1 of
                Inl err \<Rightarrow> Inl err
              | Inr st1 \<Rightarrow>
                  let acc2 = (if next = start \<and> length path \<ge> mn
                              then emit lc path st1 else Inr st1)
                  in if next \<notin> set visited
                     then dfs lc adj mn mx start next (path @ [next]) (set_add visited next) acc2
                     else acc2"
          have "cycles_inv adj mn mx (fold ?step neighbors (Inr st))"
          proof (rule fold_invariant [where I = "cycles_inv adj mn mx"])
            show "cycles_inv adj mn mx (Inr st)" using inv Inr by simp
          next
            fix x :: string and a :: "error + cycle_state"
            assume x: "x \<in> set neighbors" and a: "cycles_inv adj mn mx a"
            show "cycles_inv adj mn mx (?step x a)"
            proof (cases a)
              case (Inl err)
              then show ?thesis by (simp add: cycles_inv_def)
            next
              case st1: (Inr st1)
              let ?acc2 = "if x = start \<and> length path \<ge> mn then emit lc path st1 else Inr st1"
              have edge: "has_edge adj (last path) x"
                using pre Some x by (simp add: dfs_pre_def has_edge_def)
              have acc2: "cycles_inv adj mn mx ?acc2"
              proof (cases "x = start \<and> length path \<ge> mn")
                case True
                have "simple_cycle adj path"
                  using pre edge True by (simp add: dfs_pre_def simple_cycle_def)
                with a st1 True deep show ?thesis
                  by (simp add: emit_inv)
              next
                case False
                with a st1 show ?thesis by auto
              qed
              show ?thesis
              proof (cases "x \<in> set visited")
                case True
                then show ?thesis using acc2 by (simp add: st1 Let_def)
              next
                case False
                have pre': "dfs_pre adj start x (path @ [x]) (set_add visited x)"
                  using pre False edge
                  by (auto simp: dfs_pre_def set_add_def is_walk_snoc)
                from "1.IH" [OF Inr deep Some x refl False, of st1] acc2 pre'
                have "cycles_inv adj mn mx
                        (dfs lc adj mn mx start x (path @ [x]) (set_add visited x) ?acc2)"
                  by simp
                then show ?thesis using False by (simp add: st1 Let_def)
              qed
            qed
          qed
          then show ?thesis
            by (simp add: dfs.simps [of lc adj mn mx start current path] Inr deep Some)
        qed
      qed
    qed
  qed
qed

lemma detectCycles_sound:
  assumes "detectCycles lc e mn mx = Inr cycles" and "p \<in> set cycles"
  shows "simple_cycle (adjacency e) p \<and> mn \<le> length p \<and> length p \<le> mx"
proof -
  let ?adj = "adjacency e"
  let ?step = "\<lambda>node acc. dfs lc ?adj mn mx node node [node] (new_Set [node]) acc"
  have "cycles_inv ?adj mn mx (fold ?step (map fst ?adj) (Inr ([], [])))"
  proof (rule fold_invariant [where I = "cycles_inv ?adj mn mx"])
    show "cycles_inv ?adj mn mx (Inr ([], []))" by (simp add: cycles_inv_def)
  next
    fix x :: string and a :: "error + cycle_state"
    assume "cycles_inv ?adj mn mx a"
    moreover have "dfs_pre ?adj x x [x] (new_Set [x])"
      by (simp add: dfs_pre_def new_Set_def set_add_def)
    ultimately show "cycles_inv ?adj mn mx (?step x a)"
      using dfs_sound_aux [of ?adj mn mx a x x "[x]" "new_Set [x]" lc] by simp
  qed
  with assms show ?thesis
    unfolding detectCycles_def cycles_inv_def by (auto split: sum.splits)
qed

text \<open>
  Every sequence that \<open>analyze\<close> gets from the cycle detector is a simple directed
  cycle of the graph with 3, 4 or 5 nodes; a loop \<open>A \<rightarrow> B \<rightarrow> A\<close> and a
  self-loop are never reported.
\<close>

lemma reported_cycles_have_3_to_5_nodes:
  assumes "detectCycles lc e 3 5 = Inr cycles" and "p \<in> set cycles"
  shows "simple_cycle (adjacency e) p \<and> length p \<in> {3, 4, 5}"
proof -
  from detectCycles_sound [OF assms]
  have "simple_cycle (adjacency e) p" and "3 \<le> length p" and "length p \<le> 5" by simp_all
  then show ?thesis by auto
qed

subsection \<open>Cycle detection: every cycle is found, once for each key\<close>

lemma dfs_preserves:
  "(\<forall>path st. J (Inr st) \<longrightarrow> J (emit lc path st)) \<longrightarrow> (\<forall>err. J (Inl err)) \<longrightarrow> J acc \<longrightarrow>
     J (dfs lc adj mn mx start current path visited acc)"
proof (induction lc adj mn mx start current path visited acc rule: dfs.induct)
  case (1 lc adj mn mx start current path visited acc)
  show ?case
  proof (intro impI)
    assume emit: "\<forall>path st. J (Inr st) \<longrightarrow> J (emit lc path st)"
      and err: "\<forall>err. J (Inl err)" and acc: "J acc"
    show "J (dfs lc adj mn mx start current path visited acc)"
    proof (cases acc)
      case (Inl e)
      then show ?thesis using err by (simp add: dfs_Inl)
    next
      case (Inr st)
      show ?thesis
      proof (cases "mx < length path")
        case True
        then show ?thesis
          using acc by (simp add: dfs.simps [of lc adj mn mx start current path] Inr)
      next
        case deep: False
        show ?thesis
        proof (cases "map_get adj current")
          case None
          then show ?thesis
            using acc by (simp add: dfs.simps [of lc adj mn mx start current path] Inr deep)
        next
          case (Some neighbors)
          let ?step = "\<lambda>next acc1.
              case acc1 of
                Inl err \<Rightarrow> Inl err
              | Inr st1 \<Rightarrow>
                  let acc2 = (if next = start \<and> length path \<ge> mn
                              then emit lc path st1 else Inr st1)
                  in if next \<notin> set visited
                     then dfs lc adj mn mx start next (path @ [next]) (set_add visited next) acc2
                     else acc2"
          have "J (fold ?step neighbors (Inr st))"
          proof (rule fold_invariant [where I = J])
            show "J (Inr st)" using acc Inr by simp
          next
            fix x :: string and a :: "error + cycle_state"
            assume x: "x \<in> set neighbors" and a: "J a"
            show "J (?step x a)"
            proof (cases a)
              case (Inl e)
              then show ?thesis using err by simp
            next
              case st1: (Inr st1)
              let ?acc2 = "if x = start \<and> length path \<ge> mn then emit lc path st1 else Inr st1"
              have "J (emit lc path st1)" using a st1 emit by blast
              then have acc2: "J ?acc2" using a st1 by simp
              show ?thesis
              proof (cases "x \<in> set visited")
                case True
                then show ?thesis using acc2 by (simp add: st1 Let_def)
              next
                case False
                from "1.IH" [OF Inr deep Some x refl False, of st1] emit err acc2
                have "J (dfs lc adj mn mx start x (path @ [x]) (set_add visited x) ?acc2)"
                  by simp
                then show ?thesis using False by (simp add: st1 Let_def)
              qed
            qed
          qed
          then show ?thesis
            by (simp add: dfs.simps [of lc adj mn mx start current path] Inr deep Some)
        qed
      qed
    qed
  qed
qed

lemma emit_has_key: "has_key k (Inr st) \<Longrightarrow> has_key k (emit lc path st)"
  unfolding emit_def has_key_def set_add_def by (auto split: sum.splits)

lemma emit_reaches_key: "canonicalize lc path = Inr k \<Longrightarrow> has_key k (emit lc path st)"
  unfolding emit_def has_key_def set_add_def by auto

lemma emit_in_step: "in_step lc (Inr st) \<Longrightarrow> in_step lc (emit lc path st)"
  unfolding emit_def in_step_def set_add_def by (auto split: sum.splits)

lemma dfs_has_key:
  "has_key k acc \<Longrightarrow> has_key k (dfs lc adj mn mx start current path visited acc)"
  using dfs_preserves [of "has_key k" lc acc adj mn mx start current path visited]
  by (simp add: emit_has_key) (simp add: has_key_def)

lemma dfs_in_step:
  "in_step lc acc \<Longrightarrow> in_step lc (dfs lc adj mn mx start current path visited acc)"
  using dfs_preserves [of "in_step lc" lc acc adj mn mx start current path visited]
  by (simp add: emit_in_step) (simp add: in_step_def)

lemma is_walk_nth:
  assumes "is_walk adj p" and "Suc i < length p"
  shows "has_edge adj (p ! i) (p ! Suc i)"
  using assms
proof (induction adj p arbitrary: i rule: is_walk.induct)
  case (3 adj x y r)
  then show ?case by (cases i) auto
qed simp_all

lemma dfs_step_has_key:
  "has_key k a \<Longrightarrow>
   has_key k (case a of
                Inl err \<Rightarrow> Inl err
              | Inr st1 \<Rightarrow>
                  let acc2 = (if y = start \<and> length path \<ge> mn
                              then emit lc path st1 else Inr st1)
                  in if y \<notin> set visited
                     then dfs lc adj mn mx start y (path @ [y]) (set_add visited y) acc2
                     else acc2)"
  by (cases a) (auto simp: Let_def intro: dfs_has_key emit_has_key)

lemma dfs_reaches_cycle:
  assumes cyc: "simple_cycle adj p" and len: "mn \<le> length p" "length p \<le> mx"
    and key: "canonicalize lc p = Inr k"
    and n: "0 < n" "n \<le> length p" and path: "path = take n p"
    and visited: "set visited = set path"
  shows "has_key k (dfs lc adj mn mx (hd p) (last path) path visited acc)"
  using n path visited
proof (induction "length p - n" arbitrary: n path visited acc)
  case 0
  then have full: "path = p" by simp
  show ?case
  proof (cases acc)
    case (Inl e)
    then show ?thesis by (simp add: dfs_Inl has_key_def)
  next
    case (Inr st)
    from cyc have "has_edge adj (last p) (hd p)" by (simp add: simple_cycle_def)
    then obtain neighbors where nb: "map_get adj (last p) = Some neighbors"
      and hd: "hd p \<in> set neighbors"
      by (auto simp: has_edge_def split: option.splits)
    let ?step = "\<lambda>next acc1.
        case acc1 of
          Inl err \<Rightarrow> Inl err
        | Inr st1 \<Rightarrow>
            let acc2 = (if next = hd p \<and> length p \<ge> mn
                        then emit lc p st1 else Inr st1)
            in if next \<notin> set visited
               then dfs lc adj mn mx (hd p) next (p @ [next]) (set_add visited next) acc2
               else acc2"
    have "has_key k (fold ?step neighbors (Inr st))"
    proof (rule fold_reaches [where Q = "has_key k" and x = "hd p"])
      show "hd p \<in> set neighbors" by (rule hd)
    next
      fix s :: "error + cycle_state"
      show "has_key k (?step (hd p) s)"
      proof (cases s)
        case (Inl e)
        then show ?thesis by (simp add: has_key_def)
      next
        case (Inr st1)
        have "has_key k (emit lc p st1)" by (rule emit_reaches_key [OF key])
        then show ?thesis
          using len(1) by (auto simp: Inr Let_def intro: dfs_has_key)
      qed
    next
      fix y :: string and s :: "error + cycle_state"
      assume "has_key k s"
      then show "has_key k (?step y s)" by (rule dfs_step_has_key)
    qed
    then show ?thesis
      using len(2) by (simp add: full dfs.simps [of lc adj mn mx "hd p" "last p" p] Inr nb)
  qed
next
  case (Suc m)
  then have lt: "n < length p" by simp
  have path_ne: "path \<noteq> []" using Suc.prems by auto
  have "take n p \<noteq> []" and "length (take n p) = n" using Suc.prems lt by auto
  then have "last (take n p) = take n p ! (n - 1)" by (simp add: last_conv_nth)
  then have last: "last path = p ! (n - 1)"
    using Suc.prems by simp
  have lenp: "length path = n" using Suc.prems by simp
  show ?case
  proof (cases acc)
    case (Inl e)
    then show ?thesis by (simp add: dfs_Inl has_key_def)
  next
    case (Inr st)
    from cyc have walk: "is_walk adj p" and dist: "distinct p" by (simp_all add: simple_cycle_def)
    have "has_edge adj (p ! (n - 1)) (p ! Suc (n - 1))"
      using is_walk_nth [OF walk, of "n - 1"] lt Suc.prems(1) by simp
    then have "has_edge adj (last path) (p ! n)" using last Suc.prems(1) by simp
    then obtain neighbors where nb: "map_get adj (last path) = Some neighbors"
      and nx: "p ! n \<in> set neighbors"
      by (auto simp: has_edge_def split: option.splits)
    have fresh: "p ! n \<notin> set visited"
    proof
      assume "p ! n \<in> set visited"
      then have "p ! n \<in> set (take n p)" using Suc.prems by simp
      then obtain i where "i < n" "p ! i = p ! n"
        using lt by (auto simp: in_set_conv_nth)
      with dist lt show False by (simp add: nth_eq_iff_index_eq)
    qed
    have ext: "path @ [p ! n] = take (Suc n) p"
      using Suc.prems lt by (simp add: take_Suc_conv_app_nth)
    let ?step = "\<lambda>next acc1.
        case acc1 of
          Inl err \<Rightarrow> Inl err
        | Inr st1 \<Rightarrow>
            let acc2 = (if next = hd p \<and> length path \<ge> mn
                        then emit lc path st1 else Inr st1)
            in if next \<notin> set visited
               then dfs lc adj mn mx (hd p) next (path @ [next]) (set_add visited next) acc2
               else acc2"
    have "has_key k (fold ?step neighbors (Inr st))"
    proof (rule fold_reaches [where Q = "has_key k" and x = "p ! n"])
      show "p ! n \<in> set neighbors" by (rule nx)
    next
      fix s :: "error + cycle_state"
      show "has_key k (?step (p ! n) s)"
      proof (cases s)
        case (Inl e)
        then show ?thesis by (simp add: has_key_def)
      next
        case (Inr st1)
        have m: "m = length p - Suc n" using Suc.hyps(2) by simp
        have lastx: "last (take (Suc n) p) = p ! n"
          using lt by (simp add: take_Suc_conv_app_nth)
        have vis: "set (set_add visited (p ! n)) = set (take (Suc n) p)"
          using Suc.prems lt by (auto simp: set_add_def take_Suc_conv_app_nth)
        from Suc.hyps(1) [OF m _ _ refl vis] lt
        have "has_key k (dfs lc adj mn mx (hd p) (p ! n) (take (Suc n) p)
                (set_add visited (p ! n)) a)" for a
          by (simp add: lastx)
        then show ?thesis
          using fresh by (simp add: Inr Let_def ext)
      qed
    next
      fix y :: string and s :: "error + cycle_state"
      assume "has_key k s"
      then show "has_key k (?step y s)" by (rule dfs_step_has_key)
    qed
    moreover have "\<not> mx < length path" using lenp lt len(2) by simp
    ultimately show ?thesis
      by (simp add: dfs.simps [of lc adj mn mx "hd p" "last path" path] Inr nb)
  qed
qed

lemma detectCycles_fold_in_step:
  "in_step lc (fold (\<lambda>node acc. dfs lc adj mn mx node node [node] (new_Set [node]) acc)
                nodes (Inr ([], [])))"
  by (rule fold_invariant [where I = "in_step lc"]) (simp_all add: in_step_def [of lc "Inr ([], [])"] dfs_in_step)

lemma detectCycles_keys_distinct:
  assumes "detectCycles lc e mn mx = Inr cycles"
  shows "distinct (map (canonicalize lc) cycles)"
proof -
  let ?res = "fold (\<lambda>node acc. dfs lc (adjacency e) mn mx node node [node] (new_Set [node]) acc)
                (map fst (adjacency e)) (Inr ([], []))"
  from assms obtain st where st: "?res = Inr st" and c: "cycles = snd st"
    unfolding detectCycles_def by (auto split: sum.splits)
  have "in_step lc ?res" by (rule detectCycles_fold_in_step)
  then have "map (canonicalize lc) (snd st) = map Inr (fst st)" and "distinct (fst st)"
    unfolding st in_step_def by simp_all
  then show ?thesis unfolding c by (simp add: distinct_map)
qed

lemma simple_cycle_start_is_node:
  assumes "simple_cycle adj p"
  shows "hd p \<in> set (map fst adj)"
proof -
  from assms have ne: "p \<noteq> []" and walk: "is_walk adj p"
    and close: "has_edge adj (last p) (hd p)"
    by (simp_all add: simple_cycle_def)
  have "\<exists>v. has_edge adj (hd p) v"
  proof (cases p)
    case Nil
    with ne show ?thesis by simp
  next
    case (Cons x r)
    show ?thesis
    proof (cases r)
      case Nil
      with Cons close show ?thesis by auto
    next
      case (Cons y r')
      with \<open>p = x # r\<close> walk show ?thesis by auto
    qed
  qed
  then obtain ns where "map_of adj (hd p) = Some ns"
    by (auto simp: has_edge_def map_get_def split: option.splits)
  from map_of_SomeD [OF this] show ?thesis by force
qed

text \<open>
  Every simple directed cycle with a node count in \<open>[mn, mx]\<close> has a reported cycle
  with the same canonical key, and no two reported cycles have the same key.
\<close>

lemma detectCycles_complete:
  assumes "detectCycles lc e mn mx = Inr cycles"
    and "simple_cycle (adjacency e) p" and "mn \<le> length p" and "length p \<le> mx"
  shows "\<exists>q \<in> set cycles. canonicalize lc q = canonicalize lc p"
proof -
  let ?adj = "adjacency e"
  let ?step = "\<lambda>node acc. dfs lc ?adj mn mx node node [node] (new_Set [node]) acc"
  let ?res = "fold ?step (map fst ?adj) (Inr ([], []))"
  from assms(1) obtain st where st: "?res = Inr st" and c: "cycles = snd st"
    unfolding detectCycles_def by (auto split: sum.splits)
  from assms(2) have ne: "p \<noteq> []" by (simp add: simple_cycle_def)
  obtain k where k: "canonicalize lc p = Inr k"
    using canonicalize_returns [OF ne] by blast
  have "has_key k ?res"
  proof (rule fold_reaches [where Q = "has_key k" and x = "hd p"])
    show "hd p \<in> set (map fst ?adj)" by (rule simple_cycle_start_is_node [OF assms(2)])
  next
    fix s :: "error + cycle_state"
    have one: "take 1 p = [hd p]" using ne by (cases p) auto
    have len1: "1 \<le> length p" using ne by (cases p) auto
    from dfs_reaches_cycle [OF assms(2) assms(3) assms(4) k, of 1 "[hd p]" "new_Set [hd p]" s]
      len1 one
    show "has_key k (?step (hd p) s)"
      by (simp add: new_Set_def set_add_def)
  next
    fix y :: string and s :: "error + cycle_state"
    assume "has_key k s"
    then show "has_key k (?step y s)" by (rule dfs_has_key)
  qed
  then have mem: "k \<in> set (fst st)" unfolding st has_key_def by simp
  have "in_step lc ?res" by (rule detectCycles_fold_in_step)
  then have "map (canonicalize lc) (snd st) = map Inr (fst st)"
    unfolding st in_step_def by simp
  then have "canonicalize lc ` set (snd st) = Inr ` set (fst st)"
    by (metis set_map)
  with mem have "Inr k \<in> canonicalize lc ` set (snd st)" by simp
  then show ?thesis unfolding c k by force
qed

subsection \<open>The canonical key where the comparator separates the candidates\<close>

lemma hd_insert_sorted:
  "hd (insert_sorted gt x ys) = (if ys = [] then x else if gt x (hd ys) then hd ys else x)"
  by (cases ys) auto

lemma js_sort_Cons: "js_sort gt (x # xs) = insert_sorted gt x (js_sort gt xs)"
  by (simp add: js_sort_def)

lemma js_sort_eq_Nil: "js_sort gt xs = [] \<longleftrightarrow> xs = []"
  using length_js_sort [of gt xs] by (metis length_0_conv)

lemma hd_js_sort_minimal:
  assumes "xs \<noteq> []" and "set xs \<subseteq> S" and "strictly_ordered lc S"
  shows "hd (js_sort (cmp_gt lc) xs) \<in> set xs
         \<and> (\<forall>y \<in> set xs. \<not> cmp_gt lc (hd (js_sort (cmp_gt lc) xs)) y)"
  using assms(1,2)
proof (induction xs)
  case Nil
  then show ?case by simp
next
  case (Cons x xs)
  have xS: "x \<in> S" using Cons.prems by simp
  from assms(3) xS have irrefl: "\<not> cmp_gt lc x x"
    unfolding strictly_ordered_def by blast
  show ?case
  proof (cases "xs = []")
    case True
    then show ?thesis using irrefl by (simp add: js_sort_def)
  next
    case False
    let ?m = "hd (js_sort (cmp_gt lc) xs)"
    from Cons.IH [OF False] Cons.prems
    have m: "?m \<in> set xs" and min: "\<forall>y \<in> set xs. \<not> cmp_gt lc ?m y" by auto
    have mS: "?m \<in> S" using m Cons.prems by auto
    have hd: "hd (js_sort (cmp_gt lc) (x # xs)) = (if cmp_gt lc x ?m then ?m else x)"
      using False by (simp add: js_sort_Cons hd_insert_sorted js_sort_eq_Nil)
    show ?thesis
    proof (cases "cmp_gt lc x ?m")
      case True
      then have "\<not> cmp_gt lc ?m x"
        using assms(3) xS mS unfolding strictly_ordered_def by blast
      with True m min show ?thesis unfolding hd by simp
    next
      case nx: False
      have "\<not> cmp_gt lc x y" if "y \<in> set xs" for y
      proof -
        have "y \<in> S" using that Cons.prems by auto
        moreover have "\<not> cmp_gt lc ?m y" using min that by simp
        ultimately show ?thesis
          using assms(3) xS mS nx unfolding strictly_ordered_def by blast
      qed
      with nx irrefl show ?thesis unfolding hd by simp
    qed
  qed
qed

lemma minimal_unique:
  assumes "strictly_ordered lc S" and "set xs \<subseteq> S" and "set ys = set xs"
    and "h \<in> set xs" and "\<forall>y \<in> set xs. \<not> cmp_gt lc h y"
    and "h' \<in> set ys" and "\<forall>y \<in> set ys. \<not> cmp_gt lc h' y"
  shows "h = h'"
proof -
  have "h \<in> S" "h' \<in> S" using assms by auto
  moreover have "\<not> cmp_gt lc h h'" "\<not> cmp_gt lc h' h" using assms by auto
  ultimately show ?thesis using assms(1) unfolding strictly_ordered_def by blast
qed

lemma canonicalize_hd:
  assumes "arr \<noteq> []"
  shows "canonicalize lc arr
           = Inr (join ''|'' (hd (js_sort (cmp_gt lc) (rotations_of arr @ rotations_of (rev arr)))))"
proof -
  let ?sorted = "js_sort (cmp_gt lc) (rotations_of arr @ rotations_of (rev arr))"
  have "length ?sorted = 2 * length arr"
    by (simp add: length_js_sort rotations_of_def)
  with assms obtain r rs where "?sorted = r # rs" by (cases ?sorted) auto
  then show ?thesis
    by (simp add: canonicalize_def Let_def cmp_gt_def [abs_def])
qed

lemma rotations_of_rotate: "rotations_of arr = map (\<lambda>i. rotate i arr) [0..<length arr]"
  by (auto simp: rotations_of_def rotate_drop_take)

lemma set_rotations_of:
  assumes "arr \<noteq> []"
  shows "set (rotations_of arr) = range (\<lambda>i. rotate i arr)"
proof
  show "set (rotations_of arr) \<subseteq> range (\<lambda>i. rotate i arr)"
    by (auto simp: rotations_of_rotate)
next
  show "range (\<lambda>i. rotate i arr) \<subseteq> set (rotations_of arr)"
  proof
    fix x assume "x \<in> range (\<lambda>i. rotate i arr)"
    then obtain i where "x = rotate i arr" by auto
    then have x: "x = rotate (i mod length arr) arr" by (simp add: rotate_conv_mod [symmetric])
    have "i mod length arr \<in> set [0..<length arr]" using assms by simp
    then have "rotate (i mod length arr) arr \<in> (\<lambda>i. rotate i arr) ` set [0..<length arr]"
      by (rule imageI)
    then show "x \<in> set (rotations_of arr)"
      unfolding rotations_of_rotate x by simp
  qed
qed

lemma rotation_class_range:
  assumes "arr \<noteq> []"
  shows "rotation_class arr = range (\<lambda>i. rotate i arr) \<union> range (\<lambda>i. rotate i (rev arr))"
  using assms by (simp add: rotation_class_def set_rotations_of)

lemma rotate_back:
  assumes "arr \<noteq> []"
  shows "rotate (i + (length arr - k mod length arr) + k) arr = rotate i arr"
proof -
  let ?n = "length arr"
  have n: "0 < ?n" using assms by simp
  then have "k mod ?n \<le> ?n" by (simp add: less_imp_le)
  moreover have "k mod ?n \<le> k" by simp
  ultimately have "i + (?n - k mod ?n) + k = i + ?n + (k - k mod ?n)" by simp
  also have "\<dots> = i + ?n + ?n * (k div ?n)" by (simp add: minus_mod_eq_mult_div)
  finally have eq: "i + (?n - k mod ?n) + k = i + ?n + ?n * (k div ?n)" .
  have "(i + ?n + ?n * (k div ?n)) mod ?n = i mod ?n" by simp
  then have "(i + (?n - k mod ?n) + k) mod ?n = i mod ?n" unfolding eq .
  then show ?thesis by (metis rotate_conv_mod)
qed

lemma range_rotate_rotate: "range (\<lambda>i. rotate i (rotate k arr)) = range (\<lambda>i. rotate i arr)"
proof (cases "arr = []")
  case True
  then show ?thesis by simp
next
  case False
  show ?thesis
  proof
    show "range (\<lambda>i. rotate i (rotate k arr)) \<subseteq> range (\<lambda>i. rotate i arr)"
      by (auto simp: rotate_rotate)
  next
    show "range (\<lambda>i. rotate i arr) \<subseteq> range (\<lambda>i. rotate i (rotate k arr))"
    proof
      fix x assume "x \<in> range (\<lambda>i. rotate i arr)"
      then obtain i where x: "x = rotate i arr" by auto
      have "x = rotate (i + (length arr - k mod length arr)) (rotate k arr)"
        unfolding x using rotate_back [OF False, of i k] by (simp add: rotate_rotate)
      then show "x \<in> range (\<lambda>i. rotate i (rotate k arr))" by blast
    qed
  qed
qed

lemma rev_rotate_in_range: "rev (rotate k arr) \<in> range (\<lambda>i. rotate i (rev arr))"
proof (cases "arr = []")
  case True
  then show ?thesis by simp
next
  case False
  let ?n = "length arr"
  let ?m = "k mod ?n"
  have m: "?m < ?n" using False by simp
  have "rotate (?n - ?m) (rev arr) = rev (rotate (?n - ((?n - ?m) mod ?n)) arr)"
    by (rule rotate_rev)
  also have "\<dots> = rev (rotate ?m arr)"
  proof (cases "?m = 0")
    case True
    then show ?thesis by simp
  next
    case nz: False
    then have "(?n - ?m) mod ?n = ?n - ?m" using m by simp
    then show ?thesis using m by simp
  qed
  also have "\<dots> = rev (rotate k arr)" by (simp add: rotate_conv_mod [symmetric])
  finally have "rev (rotate k arr) = rotate (?n - ?m) (rev arr)" by simp
  then show ?thesis by blast
qed

lemma range_rotate_rev_rotate:
  "range (\<lambda>i. rotate i (rev (rotate k arr))) = range (\<lambda>i. rotate i (rev arr))"
proof -
  from rev_rotate_in_range [of k arr] obtain j where "rev (rotate k arr) = rotate j (rev arr)"
    by blast
  then show ?thesis by (simp add: range_rotate_rotate)
qed

lemma rotation_class_closed:
  assumes "arr \<noteq> []" and "arr' \<in> rotation_class arr"
  shows "rotation_class arr' = rotation_class arr"
proof -
  from assms have "arr' \<in> range (\<lambda>i. rotate i arr) \<union> range (\<lambda>i. rotate i (rev arr))"
    by (simp add: rotation_class_range)
  then consider k where "arr' = rotate k arr" | k where "arr' = rotate k (rev arr)" by blast
  then show ?thesis
  proof cases
    case 1
    then have ne: "arr' \<noteq> []" using assms(1) by simp
    have "rotation_class arr'
            = range (\<lambda>i. rotate i (rotate k arr)) \<union> range (\<lambda>i. rotate i (rev (rotate k arr)))"
      using rotation_class_range [OF ne] unfolding 1 .
    also have "\<dots> = range (\<lambda>i. rotate i arr) \<union> range (\<lambda>i. rotate i (rev arr))"
      by (simp only: range_rotate_rotate range_rotate_rev_rotate)
    finally show ?thesis using rotation_class_range [OF assms(1)] by simp
  next
    case 2
    then have ne: "arr' \<noteq> []" using assms(1) by simp
    have "range (\<lambda>i. rotate i (rev (rotate k (rev arr)))) = range (\<lambda>i. rotate i (rev (rev arr)))"
      by (rule range_rotate_rev_rotate)
    then have r: "range (\<lambda>i. rotate i (rev (rotate k (rev arr)))) = range (\<lambda>i. rotate i arr)"
      by simp
    have "rotation_class arr'
            = range (\<lambda>i. rotate i (rotate k (rev arr)))
              \<union> range (\<lambda>i. rotate i (rev (rotate k (rev arr))))"
      using rotation_class_range [OF ne] unfolding 2 .
    also have "\<dots> = range (\<lambda>i. rotate i (rev arr)) \<union> range (\<lambda>i. rotate i arr)"
      by (simp only: range_rotate_rotate r)
    finally show ?thesis using rotation_class_range [OF assms(1)] by auto
  qed
qed

text \<open>
  Where the comparator orders the candidates strictly (no two different candidates
  compare as equal), the key is the same for every rotation of the sequence and every
  rotation of its reversal.
\<close>

lemma canonicalize_rotation_invariant:
  assumes "arr \<noteq> []" and "strictly_ordered lc (rotation_class arr)"
    and "arr' \<in> rotation_class arr"
  shows "canonicalize lc arr' = canonicalize lc arr"
proof -
  let ?c = "\<lambda>xs. rotations_of xs @ rotations_of (rev xs)"
  have cls: "rotation_class arr' = rotation_class arr"
    by (rule rotation_class_closed [OF assms(1,3)])
  have ne': "arr' \<noteq> []"
    using assms(1,3) by (auto simp: rotation_class_def rotations_of_def)
  have c_ne: "?c arr \<noteq> []" "?c arr' \<noteq> []"
    using assms(1) ne' by (simp_all add: rotations_of_def)
  have sub: "set (?c arr) \<subseteq> rotation_class arr" "set (?c arr') \<subseteq> rotation_class arr"
    using cls by (simp_all add: rotation_class_def)
  have same: "set (?c arr') = set (?c arr)"
    using cls by (simp add: rotation_class_def)
  from hd_js_sort_minimal [OF c_ne(1) sub(1) assms(2)] hd_js_sort_minimal [OF c_ne(2) sub(2) assms(2)]
  have "hd (js_sort (cmp_gt lc) (?c arr)) = hd (js_sort (cmp_gt lc) (?c arr'))"
    by (intro minimal_unique [OF assms(2) sub(1) same]) blast+
  then show ?thesis
    by (simp add: canonicalize_hd [OF assms(1)] canonicalize_hd [OF ne'])
qed

subsection \<open>The order by character code separates identifiers without the comma\<close>

lemma codeUnitCompare_refl: "codeUnitCompare s s = 0"
  by (induction s) auto

lemma codeUnitCompare_sign: "codeUnitCompare s t > 0 \<longleftrightarrow> codeUnitCompare t s < 0"
  by (induction s t rule: codeUnitCompare.induct) auto

lemma codeUnitCompare_eq: "codeUnitCompare s t = 0 \<Longrightarrow> s = t"
  by (induction s t rule: codeUnitCompare.induct) (auto split: if_splits)

lemma codeUnitCompare_trans:
  "codeUnitCompare r s \<le> 0 \<Longrightarrow> codeUnitCompare s t \<le> 0 \<Longrightarrow> codeUnitCompare r t \<le> 0"
proof (induction r arbitrary: s t)
  case Nil
  then show ?case by (cases t) auto
next
  case (Cons x r)
  then obtain y s' where s: "s = y # s'" by (cases s) auto
  with Cons.prems obtain z t' where t: "t = z # t'" by (cases t) auto
  show ?case
    using Cons.prems Cons.IH [of s' t'] unfolding s t
    by (auto split: if_splits)
qed

lemma split_at_char:
  assumes "c \<notin> set x" and "c \<notin> set x'" and "x @ c # r = x' @ c # r'"
  shows "x = x' \<and> r = r'"
  using assms
proof (induction x arbitrary: x')
  case Nil
  then show ?case by (cases x') auto
next
  case (Cons a as)
  then show ?case by (cases x') auto
qed

lemma join_comma_inj:
  assumes "length a = length b"
    and "\<forall>x \<in> set a. CHR '','' \<notin> set x" and "\<forall>x \<in> set b. CHR '','' \<notin> set x"
    and "join '','' a = join '','' b"
  shows "a = b"
  using assms
proof (induction a b rule: list_induct2)
  case Nil
  then show ?case by simp
next
  case (Cons x xs y ys)
  show ?case
  proof (cases xs)
    case Nil
    with Cons show ?thesis by simp
  next
    case xs: (Cons x2 xs')
    with Cons.hyps obtain y2 ys' where ys: "ys = y2 # ys'" by (cases ys) auto
    from Cons.prems(3) have "x @ CHR '','' # join '','' xs = y @ CHR '','' # join '','' ys"
      by (simp add: xs ys)
    from split_at_char [OF _ _ this] Cons.prems(1,2)
    have "x = y" and "join '','' xs = join '','' ys" by simp_all
    with Cons.IH Cons.prems(1,2) show ?thesis by simp
  qed
qed

lemma rotation_members:
  assumes "a \<in> set (rotations_of xs)"
  shows "length a = length xs \<and> set a = set xs"
proof -
  from assms obtain i where a: "a = drop i xs @ take i xs"
    unfolding rotations_of_def by auto
  have "set a = set (drop i xs) \<union> set (take i xs)" unfolding a by simp
  also have "\<dots> = set (take i xs @ drop i xs)" by (simp only: set_append Un_commute)
  also have "\<dots> = set xs" by (simp only: append_take_drop_id)
  finally have "set a = set xs" .
  moreover have "length a = length (take i xs @ drop i xs)" unfolding a by simp
  then have "length a = length xs" by simp
  ultimately show ?thesis by simp
qed

lemma rotation_class_members:
  assumes "a \<in> rotation_class arr"
  shows "length a = length arr \<and> set a = set arr"
proof -
  from assms have "a \<in> set (rotations_of arr) \<or> a \<in> set (rotations_of (rev arr))"
    by (simp add: rotation_class_def)
  then show ?thesis
  proof
    assume "a \<in> set (rotations_of arr)"
    then show ?thesis by (rule rotation_members)
  next
    assume "a \<in> set (rotations_of (rev arr))"
    from rotation_members [OF this] show ?thesis by simp
  qed
qed

lemma codeUnitCompare_strictly_orders:
  assumes "\<forall>x \<in> set arr. CHR '','' \<notin> set x"
  shows "strictly_ordered codeUnitCompare (rotation_class arr)"
  unfolding strictly_ordered_def
proof (intro conjI ballI impI)
  fix a
  show "\<not> cmp_gt codeUnitCompare a a"
    by (simp add: cmp_gt_def codeUnitCompare_refl)
next
  fix a b
  assume "cmp_gt codeUnitCompare a b"
  then have "codeUnitCompare (join '','' b) (join '','' a) < 0"
    by (simp add: cmp_gt_def codeUnitCompare_sign)
  then show "\<not> cmp_gt codeUnitCompare b a"
    by (simp add: cmp_gt_def)
next
  fix a b c
  assume "\<not> cmp_gt codeUnitCompare a b \<and> \<not> cmp_gt codeUnitCompare b c"
  then have "codeUnitCompare (join '','' a) (join '','' b) \<le> 0"
    and "codeUnitCompare (join '','' b) (join '','' c) \<le> 0"
    by (simp_all add: cmp_gt_def not_less)
  then have "codeUnitCompare (join '','' a) (join '','' c) \<le> 0"
    by (rule codeUnitCompare_trans)
  then show "\<not> cmp_gt codeUnitCompare a c"
    by (simp add: cmp_gt_def not_less)
next
  fix a b
  assume a: "a \<in> rotation_class arr" and b: "b \<in> rotation_class arr"
    and tie: "\<not> cmp_gt codeUnitCompare a b \<and> \<not> cmp_gt codeUnitCompare b a"
  from tie have "\<not> codeUnitCompare (join '','' a) (join '','' b) > 0"
    and "\<not> codeUnitCompare (join '','' a) (join '','' b) < 0"
    by (simp_all add: cmp_gt_def codeUnitCompare_sign)
  then have "codeUnitCompare (join '','' a) (join '','' b) = 0" by simp
  then have eq: "join '','' a = join '','' b" by (rule codeUnitCompare_eq)
  from rotation_class_members [OF a] rotation_class_members [OF b]
  have len: "length a = length b" and sets: "set a = set arr" "set b = set arr" by simp_all
  have "\<forall>x \<in> set a. CHR '','' \<notin> set x" and "\<forall>x \<in> set b. CHR '','' \<notin> set x"
    unfolding sets using assms by simp_all
  with len show "a = b" using eq by (intro join_comma_inj)
qed

text \<open>
  For identifiers without the comma, and the order by character code as the
  comparator, the key is the same for every rotation of the sequence and of its
  reversal.
\<close>

lemma canonicalize_comma_free:
  assumes "arr \<noteq> []" and "\<forall>x \<in> set arr. CHR '','' \<notin> set x"
    and "arr' \<in> rotation_class arr"
  shows "canonicalize codeUnitCompare arr' = canonicalize codeUnitCompare arr"
  by (rule canonicalize_rotation_invariant
      [OF assms(1) codeUnitCompare_strictly_orders [OF assms(2)] assms(3)])

subsection \<open>The sliding window finds the densest window\<close>

lemma not_lt_mono: "\<not> time_lt a b \<Longrightarrow> time_le a c \<Longrightarrow> \<not> time_lt c b"
  by (cases a; cases b; cases c) simp_all

lemma lt_bound_mono: "time_lt a (time_sub b k) \<Longrightarrow> time_le b c \<Longrightarrow> time_lt a (time_sub c k)"
  by (cases a; cases b; cases c) simp_all

lemma time_le_trans: "time_le a b \<Longrightarrow> time_le b c \<Longrightarrow> time_le a c"
  by (cases a; cases b; cases c) simp_all

lemma time_le_refl: "a \<noteq> NaN \<Longrightarrow> time_le a a"
  by (cases a) simp_all

lemma not_pos_diff: "a \<noteq> NaN \<Longrightarrow> b \<noteq> NaN \<Longrightarrow> \<not> time_pos (time_diff a b) \<Longrightarrow> time_le a b"
  by (cases a; cases b) simp_all

lemma pos_diff: "time_pos (time_diff a b) \<Longrightarrow> time_le b a"
  by (cases a; cases b) simp_all

lemma insert_sorted_by_time:
  assumes "parsed (x # ys)" and "sorted_by_time ys"
  shows "sorted_by_time
           (insert_sorted (\<lambda>a b. time_pos (time_diff (tx_time a) (tx_time b))) x ys)"
  using assms
proof (induction ys)
  case Nil
  then show ?case by (simp add: sorted_by_time_def)
next
  case (Cons y ys)
  let ?gt = "\<lambda>a b. time_pos (time_diff (tx_time a) (tx_time b))"
  have px: "tx_time x \<noteq> NaN" and py: "tx_time y \<noteq> NaN"
    using Cons.prems(1) by (simp_all add: parsed_def)
  have sorted_ys: "sorted_by_time ys" and y_le: "\<forall>z \<in> set ys. time_le (tx_time y) (tx_time z)"
    using Cons.prems(2) by (simp_all add: sorted_by_time_def)
  show ?case
  proof (cases "?gt x y")
    case True
    have "parsed (x # ys)" using Cons.prems(1) by (simp add: parsed_def)
    from Cons.IH [OF this sorted_ys]
    have "sorted_by_time (insert_sorted ?gt x ys)" .
    moreover have "time_le (tx_time y) (tx_time x)" using True by (rule pos_diff)
    ultimately show ?thesis
      using True y_le by (simp add: sorted_by_time_def insert_sorted_set)
  next
    case False
    then have xy: "time_le (tx_time x) (tx_time y)" using px py by (simp add: not_pos_diff)
    have "\<forall>z \<in> set ys. time_le (tx_time x) (tx_time z)"
      using y_le xy by (blast intro: time_le_trans)
    with False xy Cons.prems(2) show ?thesis by (simp add: sorted_by_time_def)
  qed
qed

lemma js_sort_by_time:
  assumes "parsed xs"
  shows "sorted_by_time (js_sort (\<lambda>a b. time_pos (time_diff (tx_time a) (tx_time b))) xs)"
  using assms
proof (induction xs)
  case Nil
  then show ?case by (simp add: js_sort_def sorted_by_time_def)
next
  case (Cons x xs)
  let ?gt = "\<lambda>a b. time_pos (time_diff (tx_time a) (tx_time b))"
  have "parsed xs" using Cons.prems by (simp add: parsed_def)
  then have "sorted_by_time (js_sort ?gt xs)" by (rule Cons.IH)
  moreover have "parsed (x # js_sort ?gt xs)"
    using Cons.prems by (simp add: parsed_def js_sort_set)
  ultimately show ?case by (simp add: js_sort_Cons insert_sorted_by_time)
qed

lemma incoming_sorted_properties:
  assumes "parsed txs"
  shows "sorted_by_time (incoming_sorted account txs)"
    and "parsed (incoming_sorted account txs)"
    and "set (incoming_sorted account txs) = {t \<in> set txs. receiver_id t = account}"
    and "length (incoming_sorted account txs) = length (filter (\<lambda>t. receiver_id t = account) txs)"
proof -
  have p: "parsed (filter (\<lambda>t. receiver_id t = account) txs)"
    using assms by (simp add: parsed_def)
  show "sorted_by_time (incoming_sorted account txs)"
    unfolding incoming_sorted_def by (rule js_sort_by_time [OF p])
  show "parsed (incoming_sorted account txs)"
    using assms by (simp add: incoming_sorted_def parsed_def js_sort_set)
  show "set (incoming_sorted account txs) = {t \<in> set txs. receiver_id t = account}"
    by (auto simp: incoming_sorted_def js_sort_set)
  show "length (incoming_sorted account txs) = length (filter (\<lambda>t. receiver_id t = account) txs)"
    by (simp add: incoming_sorted_def length_js_sort)
qed

lemma sorted_by_time_nth:
  assumes "sorted_by_time inc" and "parsed inc" and "i \<le> j" and "j < length inc"
  shows "time_le (tx_time (inc ! i)) (tx_time (inc ! j))"
proof (cases "i = j")
  case True
  have "tx_time (inc ! j) \<noteq> NaN" using assms(2,4) by (simp add: parsed_def)
  then show ?thesis unfolding True by (rule time_le_refl)
next
  case False
  then have "i < j" using assms(3) by simp
  with assms(1,4) show ?thesis
    by (simp add: sorted_by_time_def sorted_wrt_iff_nth_less)
qed

lemma within_window_later:
  assumes "sorted_by_time inc" and "parsed inc"
    and "within_window inc r i" and "i \<le> j" and "j < length inc"
  shows "within_window inc r j"
  using assms(3) sorted_by_time_nth [OF assms(1,2,4,5)]
  unfolding within_window_def by (rule not_lt_mono)

lemma outside_later_window:
  assumes "sorted_by_time inc" and "parsed inc"
    and "\<not> within_window inc r i" and "r \<le> r'" and "r' < length inc"
  shows "\<not> within_window inc r' i"
proof -
  from assms(3) have "time_lt (tx_time (inc ! i)) (time_sub (tx_time (inc ! r)) WINDOW_MS)"
    by (simp add: within_window_def)
  from lt_bound_mono [OF this sorted_by_time_nth [OF assms(1,2,4,5)]]
  show ?thesis by (simp add: within_window_def)
qed

lemma advance_spec:
  assumes "left \<le> right" and "right < length incoming"
    and "\<not> time_lt (tx_time (incoming ! right)) bound"
  shows "\<exists>l. advance incoming bound left = Inr l \<and> left \<le> l \<and> l \<le> right
            \<and> \<not> time_lt (tx_time (incoming ! l)) bound
            \<and> (\<forall>i. left \<le> i \<and> i < l \<longrightarrow> time_lt (tx_time (incoming ! i)) bound)"
  using assms
proof (induction "right - left" arbitrary: left)
  case 0
  then have "left = right" by simp
  with "0.prems" show ?case by (auto simp: advance.simps [of incoming bound right])
next
  case (Suc n)
  then have lt: "left < right" by simp
  show ?case
  proof (cases "time_lt (tx_time (incoming ! left)) bound")
    case True
    have "n = right - Suc left" using Suc.hyps(2) by simp
    from Suc.hyps(1) [OF this] lt Suc.prems(2,3)
    obtain l where l: "advance incoming bound (Suc left) = Inr l" "Suc left \<le> l" "l \<le> right"
      "\<not> time_lt (tx_time (incoming ! l)) bound"
      "\<forall>i. Suc left \<le> i \<and> i < l \<longrightarrow> time_lt (tx_time (incoming ! i)) bound"
      by auto
    have "\<forall>i. left \<le> i \<and> i < l \<longrightarrow> time_lt (tx_time (incoming ! i)) bound"
    proof (intro allI impI)
      fix i assume i: "left \<le> i \<and> i < l"
      show "time_lt (tx_time (incoming ! i)) bound"
      proof (cases "i = left")
        case True
        then show ?thesis using \<open>time_lt (tx_time (incoming ! left)) bound\<close> by simp
      next
        case False
        with i l(5) show ?thesis by simp
      qed
    qed
    with True lt Suc.prems(2) l show ?thesis
      by (simp add: advance.simps [of incoming bound left])
  next
    case False
    with lt Suc.prems(2) show ?thesis
      by (auto simp: advance.simps [of incoming bound left])
  qed
qed

lemma length_slice_window:
  assumes "l \<le> r" and "r < length xs"
  shows "length (slice xs l (Suc r)) = Suc r - l"
  using assms by (simp add: slice_def)

lemma scan_spec:
  assumes srt: "sorted_by_time inc" and prs: "parsed inc"
    and "left \<le> right" and "skipped inc left right"
    and "optimal inc best right" and "is_window inc best"
  shows "\<exists>w. scan inc right left best = Inr w \<and> optimal inc w (length inc) \<and> is_window inc w"
  using assms(3-)
proof (induction "length inc - right" arbitrary: right left best)
  case 0
  then have "length inc \<le> right" by simp
  moreover from this "0.prems"(3) have "optimal inc best (length inc)"
    by (simp add: optimal_def)
  ultimately show ?case
    using "0.prems"(4) by (simp add: scan.simps [of inc right left best])
next
  case (Suc n)
  then have r: "right < length inc" by simp
  let ?b = "time_sub (tx_time (inc ! right)) WINDOW_MS"
  from advance_spec [OF Suc.prems(1) r not_before_own_window]
  obtain l where l: "advance inc ?b left = Inr l" and ll: "left \<le> l" and lr: "l \<le> right"
    and l_in: "\<not> time_lt (tx_time (inc ! l)) ?b"
    and l_out: "\<forall>i. left \<le> i \<and> i < l \<longrightarrow> time_lt (tx_time (inc ! i)) ?b"
    by blast
  let ?window = "slice inc l (right + 1)"
  let ?best = "if length ?window > length best then ?window else best"
  have win_len: "length ?window = Suc right - l"
    using length_slice_window [OF lr r] by simp
  have out_now: "\<not> within_window inc right i" if "i < l" for i
  proof (cases "i < left")
    case True
    with Suc.prems(2) r show ?thesis by (simp add: skipped_def)
  next
    case False
    with that l_out show ?thesis by (simp add: within_window_def)
  qed
  have sk: "skipped inc l (Suc right)"
    unfolding skipped_def
  proof (intro allI impI)
    fix i r' assume a: "i < l \<and> Suc right \<le> r' \<and> r' < length inc"
    then have "\<not> within_window inc right i" by (simp add: out_now)
    from outside_later_window [OF srt prs this, of r'] a
    show "\<not> within_window inc r' i" by simp
  qed
  have opt: "optimal inc ?best (Suc right)"
    unfolding optimal_def
  proof (intro allI impI)
    fix r' l' assume a: "r' < Suc right \<and> l' \<le> r' \<and> within_window inc r' l'"
    show "Suc r' - l' \<le> length ?best"
    proof (cases "r' = right")
      case True
      with a out_now [of l'] have "l \<le> l'" by (cases "l' < l") simp_all
      then have "Suc right - l' \<le> length ?window" using win_len by simp
      with True show ?thesis by simp
    next
      case False
      with a have "r' < right" by simp
      with a Suc.prems(3) have "Suc r' - l' \<le> length best" by (simp add: optimal_def)
      then show ?thesis by simp
    qed
  qed
  have isw: "is_window inc ?best"
  proof (cases "length ?window > length best")
    case True
    have "within_window inc right l" using l_in by (simp add: within_window_def)
    with lr r have "is_window inc ?window"
      unfolding is_window_def by (intro disjI2 exI [of _ l] exI [of _ right]) simp
    with True show ?thesis by simp
  next
    case False
    with Suc.prems(4) show ?thesis by simp
  qed
  have "n = length inc - Suc right" using Suc.hyps(2) by simp
  from Suc.hyps(1) [OF this _ sk opt isw] lr
  obtain w where w: "scan inc (Suc right) l ?best = Inr w"
    and "optimal inc w (length inc)" "is_window inc w" by auto
  moreover have "scan inc right left best = Inr w"
    using r l w by (auto simp: scan.simps [of inc right left best] Let_def split: if_splits)
  ultimately show ?case by simp
qed

text \<open>
  The sliding window of \<open>detectSmurfing\<close>, when every timestamp of the batch is a
  date: the incoming transactions are in ascending order of time, the best window
  is a run of consecutive ones whose first lies within 72 hours of its last, and
  no run that fits in 72 hours is longer.
\<close>

lemma densest_window_is_densest:
  assumes "parsed txs"
  shows "\<exists>w. densest_window account txs = Inr w
           \<and> sorted_by_time (incoming_sorted account txs)
           \<and> is_window (incoming_sorted account txs) w
           \<and> optimal (incoming_sorted account txs) w (length (incoming_sorted account txs))"
proof -
  let ?inc = "incoming_sorted account txs"
  have srt: "sorted_by_time ?inc" and prs: "parsed ?inc"
    using incoming_sorted_properties [OF assms] by simp_all
  have "skipped ?inc 0 0" by (simp add: skipped_def)
  moreover have "optimal ?inc [] 0" by (simp add: optimal_def)
  moreover have "is_window ?inc []" by (simp add: is_window_def)
  ultimately obtain w where "scan ?inc 0 0 [] = Inr w" "optimal ?inc w (length ?inc)"
    "is_window ?inc w"
    using scan_spec [OF srt prs, of 0 0 "[]"] by auto
  with srt show ?thesis by (auto simp: densest_window_def)
qed

end
